theory Spec2Isabelle
  imports Complex_Main "HOL-Library.Log_Nat" "HOL-Library.Sublist"
begin

text \<open>
  The scoring and aggregation of the work, reward and fine tracker
  (\<open>work_reward_fine_tracker_web_app_interactive.jsx\<close>): \<open>computeScores\<close>, the derived
  data \<open>enriched\<close>, \<open>totals\<close> and \<open>streaks\<close>, the chart series, and the two state
  updaters \<open>addOrUpdateEntry\<close> and \<open>deleteEntry\<close>. Numbers are modelled with the
  special values and the rounding of binary64 arithmetic.
\<close>

section \<open>Data model\<close>

text \<open>
  A JavaScript \<open>number\<close> is an IEEE 754 binary64 value. The finite non-zero values and
  positive zero are carried as the rational they denote (\<open>Num 0\<close> is \<open>+0\<close>); negative
  zero, the two infinities and NaN are constructors of their own.
\<close>

datatype jsnum = NaN | PInf | NInf | NZero | Num rat

section \<open>JavaScript number arithmetic\<close>

subsection \<open>Rounding to binary64\<close>

text \<open>Round a rational to the nearest integer, ties to the even one.\<close>

definition rne :: "rat \<Rightarrow> int" where
  "rne x = (let f = \<lfloor>x\<rfloor>; d = x - of_int f
            in if d < 1 / 2 then f else if 1 / 2 < d then f + 1
               else if even f then f else f + 1)"

text \<open>The binary exponent of a positive rational \<open>m\<close>: the \<open>e\<close> with
  \<open>2^e \<le> m < 2^(e+1)\<close>, found from the bit lengths of numerator and denominator.\<close>

definition expo :: "rat \<Rightarrow> int" where
  "expo m = (let (a, b) = quotient_of m; d = bitlen a - bitlen b
             in if 2 powi d \<le> m then d else d - 1)"

text \<open>Round a non-negative rational to 53 significant bits at exponent \<open>e\<close>.\<close>

definition round_at :: "int \<Rightarrow> rat \<Rightarrow> rat" where
  "round_at e m = of_int (rne (m / 2 powi (e - 52))) * 2 powi (e - 52)"

text \<open>Round a non-negative rational to the nearest binary64 magnitude (round to nearest,
  ties to even); below \<open>2^-1022\<close> the spacing is that of the subnormal numbers. The
  exponent is not bounded above here: \<open>fl\<close> turns a result of \<open>2^1024\<close> or more into
  an infinity.\<close>

definition round64 :: "rat \<Rightarrow> rat" where
  "round64 m = round_at (max (expo m) (- 1022)) m"

definition signed_zero :: "bool \<Rightarrow> jsnum" where
  "signed_zero s = (if s then NZero else Num 0)"

definition signed_inf :: "bool \<Rightarrow> jsnum" where
  "signed_inf s = (if s then NInf else PInf)"

text \<open>The binary64 result of an operation whose exact result has sign \<open>s\<close> (\<open>True\<close> is
  negative) and magnitude \<open>m\<close>.\<close>

definition fl :: "bool \<Rightarrow> rat \<Rightarrow> jsnum" where
  "fl s m = (let r = round64 m
             in if r = 0 then signed_zero s
                else if 1024 \<le> expo r then signed_inf s
                else Num (if s then - r else r))"

subsection \<open>Classification\<close>

text \<open>The sign bit: set for the negative numbers, \<open>-0\<close> and \<open>-Infinity\<close>. No
  operation looks at the sign of a NaN; it counts as unsigned.\<close>

fun signbit :: "jsnum \<Rightarrow> bool" where
  "signbit NInf = True"
| "signbit NZero = True"
| "signbit (Num q) = (q < 0)"
| "signbit _ = False"

text \<open>The magnitude of a finite number.\<close>

fun mag :: "jsnum \<Rightarrow> rat" where
  "mag (Num q) = \<bar>q\<bar>"
| "mag _ = 0"

text \<open>The rational a finite number denotes; both zeros denote 0.\<close>

fun val :: "jsnum \<Rightarrow> rat" where
  "val (Num q) = q"
| "val _ = 0"

fun is_finite :: "jsnum \<Rightarrow> bool" where
  "is_finite (Num q) = True"
| "is_finite NZero = True"
| "is_finite _ = False"

definition is_zero :: "jsnum \<Rightarrow> bool" where
  "is_zero x = (x = NZero \<or> x = Num 0)"

definition is_inf :: "jsnum \<Rightarrow> bool" where
  "is_inf x = (x = PInf \<or> x = NInf)"

subsection \<open>Operators\<close>

text \<open>\<open>x / y\<close> (Number::divide).\<close>

definition js_div :: "jsnum \<Rightarrow> jsnum \<Rightarrow> jsnum" where
  "js_div x y =
     (let s = (signbit x \<noteq> signbit y)
      in if x = NaN \<or> y = NaN then NaN
         else if is_inf x then (if is_inf y then NaN else signed_inf s)
         else if is_inf y then signed_zero s
         else if is_zero y then (if is_zero x then NaN else signed_inf s)
         else fl s (mag x / mag y))"

text \<open>\<open>x * y\<close> (Number::multiply).\<close>

definition js_mul :: "jsnum \<Rightarrow> jsnum \<Rightarrow> jsnum" where
  "js_mul x y =
     (let s = (signbit x \<noteq> signbit y)
      in if x = NaN \<or> y = NaN then NaN
         else if is_inf x \<or> is_inf y
           then (if is_zero x \<or> is_zero y then NaN else signed_inf s)
         else fl s (mag x * mag y))"

text \<open>\<open>x + y\<close> on numbers (Number::add). An exact sum of zero is \<open>+0\<close> unless both
  operands are \<open>-0\<close>.\<close>

definition js_add :: "jsnum \<Rightarrow> jsnum \<Rightarrow> jsnum" where
  "js_add x y =
     (if x = NaN \<or> y = NaN then NaN
      else if is_inf x then (if is_inf y \<and> x \<noteq> y then NaN else x)
      else if is_inf y then y
      else let v = val x + val y
           in if v = 0 then (if x = NZero \<and> y = NZero then NZero else Num 0)
              else fl (v < 0) \<bar>v\<bar>)"

text \<open>\<open>x < y\<close> on numbers: false when either is NaN; the zeros are equal.\<close>

definition js_lt :: "jsnum \<Rightarrow> jsnum \<Rightarrow> bool" where
  "js_lt x y =
     (x \<noteq> NaN \<and> y \<noteq> NaN \<and>
      ((x = NInf \<and> y \<noteq> NInf) \<or> (y = PInf \<and> x \<noteq> PInf)
       \<or> (is_finite x \<and> is_finite y \<and> val x < val y)))"

text \<open>\<open>x === y\<close> on numbers: NaN equals nothing, \<open>+0\<close> equals \<open>-0\<close>.\<close>

definition js_eq :: "jsnum \<Rightarrow> jsnum \<Rightarrow> bool" where
  "js_eq x y = (x \<noteq> NaN \<and> y \<noteq> NaN \<and> (x = y \<or> (is_zero x \<and> is_zero y)))"

text \<open>\<open>x >= y\<close> on numbers.\<close>

definition js_ge :: "jsnum \<Rightarrow> jsnum \<Rightarrow> bool" where
  "js_ge x y = (js_lt y x \<or> js_eq x y)"

text \<open>\<open>Math.min(x, y)\<close>: NaN when either is NaN; \<open>-0\<close> counts as smaller than
  \<open>+0\<close>.\<close>

definition Math_min :: "jsnum \<Rightarrow> jsnum \<Rightarrow> jsnum" where
  "Math_min x y =
     (if x = NaN \<or> y = NaN then NaN
      else if js_lt y x then y
      else if js_lt x y then x
      else if x = NZero then x else y)"

text \<open>\<open>Math.round(x)\<close>: the nearest integer, ties towards \<open>+\<infinity>\<close>; a result of zero
  from a negative argument is \<open>-0\<close>.\<close>

fun Math_round :: "jsnum \<Rightarrow> jsnum" where
  "Math_round (Num q) =
     (let n = \<lfloor>q + 1 / 2\<rfloor> in if n = 0 \<and> q < 0 then NZero else Num (of_int n))"
| "Math_round x = x"

text \<open>Truthiness of a number: \<open>+0\<close>, \<open>-0\<close> and NaN are falsy.\<close>

definition truthy :: "jsnum \<Rightarrow> bool" where
  "truthy x = (x \<noteq> NaN \<and> \<not> is_zero x)"

text \<open>\<open>x || y\<close> on numbers.\<close>

definition js_or :: "jsnum \<Rightarrow> jsnum \<Rightarrow> jsnum" where
  "js_or x y = (if truthy x then x else y)"

section \<open>Records of the application\<close>

text \<open>\<open>interface Entry\<close>; the optional \<open>note\<close> (here \<open>entry_note\<close>) is absent (\<open>None\<close>) or a string.\<close>

record Entry =
  date :: string
  dsaQs :: jsnum
  dsaMin :: jsnum
  aptQs :: jsnum
  aptMin :: jsnum
  webMin :: jsnum
  engMin :: jsnum
  entry_note :: "string option"

text \<open>\<open>interface Settings\<close>.\<close>

record Settings =
  dsaQTarget :: jsnum
  aptQTarget :: jsnum
  webMinTarget :: jsnum
  engMinTarget :: jsnum
  fineAmount :: jsnum
  rewardText :: string

definition defaultSettings :: Settings where
  "defaultSettings = \<lparr> dsaQTarget = Num 3, aptQTarget = Num 20, webMinTarget = Num 90,
     engMinTarget = Num 30, fineAmount = Num 50, rewardText = ''30 min entertainment'' \<rparr>"

text \<open>An entry with the given date and the four graded measurements; the two minute
  counts that are not graded are zero and there is no note. Used for concrete inputs.\<close>

definition sampleEntry :: "string \<Rightarrow> jsnum \<Rightarrow> jsnum \<Rightarrow> jsnum \<Rightarrow> jsnum \<Rightarrow> Entry" where
  "sampleEntry d dq aq wm em = \<lparr> date = d, dsaQs = dq, dsaMin = Num 0, aptQs = aq,
     aptMin = Num 0, webMin = wm, engMin = em, entry_note = None \<rparr>"

text \<open>Sample days and settings for concrete inputs: every default target met; nothing
  done (one of the zeros is \<open>-0\<close>); only the first dimension met; every target exceeded (one measurement infinite);
  a negative measurement; everything but the first dimension done; five problems of the
  first dimension only. \<open>noDsaTarget\<close> is the default settings with the first target
  set to 0.\<close>

definition dayAllMet :: Entry where
  "dayAllMet = sampleEntry ''2024-01-01'' (Num 3) (Num 20) (Num 90) (Num 30)"

definition dayNothing :: Entry where
  "dayNothing = sampleEntry ''2024-01-03'' (Num 0) NZero (Num 0) (Num 0)"

definition dayDsaOnly :: Entry where
  "dayDsaOnly = sampleEntry ''2024-01-02'' (Num 3) (Num 0) (Num 0) (Num 0)"

definition dayOver :: Entry where
  "dayOver = sampleEntry ''2024-01-01'' (Num 7) (Num 20) PInf (Num 45)"

definition dayNegative :: Entry where
  "dayNegative = sampleEntry ''2024-01-05'' (Num (- 3)) (Num 0) (Num 0) (Num 0)"

definition dayNoDsa :: Entry where
  "dayNoDsa = sampleEntry ''2024-01-06'' (Num 0) (Num 20) (Num 90) (Num 30)"

definition dayFive :: Entry where
  "dayFive = sampleEntry ''2024-01-07'' (Num 5) (Num 0) (Num 0) (Num 0)"

definition noDsaTarget :: Settings where
  "noDsaTarget = defaultSettings\<lparr>dsaQTarget := Num 0\<rparr>"

text \<open>Four days, out of order: three meet every default target, the third day has
  nothing done.\<close>

definition sampleEntries :: "Entry list" where
  "sampleEntries =
     [sampleEntry ''2024-01-03'' (Num 0) (Num 0) (Num 0) (Num 0),
      sampleEntry ''2024-01-01'' (Num 3) (Num 20) (Num 90) (Num 30),
      sampleEntry ''2024-01-04'' (Num 3) (Num 20) (Num 90) (Num 30),
      sampleEntry ''2024-01-02'' (Num 3) (Num 20) (Num 90) (Num 30)]"

text \<open>Forty days: twenty-three meet every default target, seventeen have nothing done.\<close>

definition fortyDays :: "Entry list" where
  "fortyDays = replicate 23 dayAllMet @ replicate 17 dayNothing"

section \<open>Entry operations\<close>

text \<open>\<open>Array.prototype.findIndex\<close>: the index of the first element satisfying the
  predicate, \<open>-1\<close> when there is none.\<close>

fun findIndex :: "('a \<Rightarrow> bool) \<Rightarrow> 'a list \<Rightarrow> int" where
  "findIndex P [] = - 1"
| "findIndex P (x # xs) =
     (if P x then 0 else (let i = findIndex P xs in if i < 0 then - 1 else i + 1))"

text \<open>The state updater passed to \<open>setEntries\<close> by \<open>addOrUpdateEntry\<close>: from the form
  and the current entries to the next entries. The index written is in range, so the
  assignment \<open>copy[idx] = ...\<close> never extends the array.\<close>

definition addOrUpdateEntry :: "Entry \<Rightarrow> Entry list \<Rightarrow> Entry list" where
  "addOrUpdateEntry form cur =
     (let idx = findIndex (\<lambda>e. date e = date form) cur
      in if idx \<ge> 0 then cur[nat idx := form] else cur @ [form])"

text \<open>The state updater of \<open>deleteEntry\<close>.\<close>

definition deleteEntry :: "string \<Rightarrow> Entry list \<Rightarrow> Entry list" where
  "deleteEntry d cur = filter (\<lambda>e. date e \<noteq> d) cur"

section \<open>Scoring\<close>

text \<open>The text of a template literal: literal pieces and interpolated numbers, in
  order. \<open>rupee\<close> is the sign U+20B9 of the source's literals, as its UTF-8 bytes.\<close>

datatype piece = Lit string | Interp jsnum

definition rupee :: string where
  "rupee = [CHR 0xE2, CHR 0x82, CHR 0xB9]"

text \<open>The object returned by \<open>computeScores\<close>.\<close>

record Scores =
  dsaScore :: jsnum
  aptScore :: jsnum
  webScore :: jsnum
  engScore :: jsnum
  completion :: jsnum
  outcome :: string
  fine :: jsnum
  autoNote :: "piece list"

definition computeScores :: "Entry \<Rightarrow> Settings \<Rightarrow> Scores" where
  "computeScores e s =
     (let dsaScore = js_or (Math_min (js_div (dsaQs e) (dsaQTarget s)) (Num 1)) (Num 0);
          aptScore = js_or (Math_min (js_div (aptQs e) (aptQTarget s)) (Num 1)) (Num 0);
          webScore = js_or (Math_min (js_div (webMin e) (webMinTarget s)) (Num 1)) (Num 0);
          engScore = js_or (Math_min (js_div (engMin e) (engMinTarget s)) (Num 1)) (Num 0);
          completion = Math_round (js_mul
             (js_div (js_add (js_add (js_add dsaScore aptScore) webScore) engScore) (Num 4))
             (Num 100));
          outcome = (if js_eq completion (Num 100) then ''Reward''
                     else if js_eq completion (Num 0) then ''Missed'' else ''Fine'');
          fine = (if outcome = ''Fine'' then fineAmount s else Num 0);
          autoNote = (if outcome = ''Reward'' then [Lit (rewardText s)]
                      else if outcome = ''Missed''
                        then [Lit (''Fine '' @ rupee), Interp (fineAmount s),
                              Lit '' + plan next day'']
                      else [Lit (''Fine '' @ rupee), Interp (fineAmount s)])
      in \<lparr> dsaScore = dsaScore, aptScore = aptScore, webScore = webScore,
           engScore = engScore, completion = completion, outcome = outcome,
           fine = fine, autoNote = autoNote \<rparr>)"

text \<open>The four graded dimensions of \<open>computeScores\<close>: the measurement of the entry, the
  target of the settings it is divided by, and the score it yields.\<close>

definition dimensions :: "((Entry \<Rightarrow> jsnum) \<times> (Settings \<Rightarrow> jsnum) \<times> (Scores \<Rightarrow> jsnum)) list" where
  "dimensions = [(dsaQs, dsaQTarget, dsaScore), (aptQs, aptQTarget, aptScore),
                 (webMin, webMinTarget, webScore), (engMin, engMinTarget, engScore)]"

text \<open>\<open>Number.isInteger\<close>.\<close>

fun is_integer :: "jsnum \<Rightarrow> bool" where
  "is_integer (Num q) = (of_int \<lfloor>q\<rfloor> = q)"
| "is_integer NZero = True"
| "is_integer _ = False"

section \<open>Aggregation\<close>

text \<open>An element of \<open>enriched\<close>: the spread \<open>{ ...e, ...computeScores(e, settings) }\<close>.
  The two objects share no field name, so the spread is the entry's fields beside the
  scores' fields.\<close>

record Enriched =
  entry :: Entry
  scores :: Scores

text \<open>\<open>Array.prototype.sort\<close> with a comparator is a stable sort: an element is inserted
  behind every element that the comparator does not place after it. (For a comparator
  that is not a consistent order the host may return another permutation.)\<close>

fun insertBy :: "('a \<Rightarrow> 'a \<Rightarrow> int) \<Rightarrow> 'a \<Rightarrow> 'a list \<Rightarrow> 'a list" where
  "insertBy cmp x [] = [x]"
| "insertBy cmp x (y # ys) =
     (if cmp x y < 0 then x # y # ys else y # insertBy cmp x ys)"

definition jsSort :: "('a \<Rightarrow> 'a \<Rightarrow> int) \<Rightarrow> 'a list \<Rightarrow> 'a list" where
  "jsSort cmp xs = foldl (\<lambda>acc x. insertBy cmp x acc) [] xs"

text \<open>\<open>enriched\<close>. The collation \<open>localeCompare\<close> belongs to the host and is a
  parameter.\<close>

definition enriched ::
    "(string \<Rightarrow> string \<Rightarrow> int) \<Rightarrow> Entry list \<Rightarrow> Settings \<Rightarrow> Enriched list" where
  "enriched localeCompare entries settings =
     map (\<lambda>e. \<lparr> entry = e, scores = computeScores e settings \<rparr>)
       (jsSort (\<lambda>a b. localeCompare (date a) (date b)) entries)"

text \<open>The collation of ISO dates (digits and hyphens): character by character, a
  proper prefix first. The result is negative, zero or positive.\<close>

fun isoCompare :: "string \<Rightarrow> string \<Rightarrow> int" where
  "isoCompare [] [] = 0"
| "isoCompare [] (y # ys) = - 1"
| "isoCompare (x # xs) [] = 1"
| "isoCompare (x # xs) (y # ys) =
     (if of_char x < (of_char y :: nat) then - 1
      else if of_char y < (of_char x :: nat) then 1
      else isoCompare xs ys)"

text \<open>The value of \<open>totals\<close>: the accumulator of the \<open>reduce\<close> with \<open>consistency\<close>
  added. Its field \<open>fineAmount\<close> is \<open>totalFineAmount\<close> here. The accumulator has no
  \<open>consistency\<close> of its own: the field is 0 in the initial record and is set when the
  \<open>reduce\<close> is over.\<close>

record Totals =
  dsa :: jsnum
  apt :: jsnum
  web :: jsnum
  eng :: jsnum
  rewards :: jsnum
  fines :: jsnum
  missed :: jsnum
  totalFineAmount :: jsnum
  consistency :: jsnum

text \<open>The length of an array as a number.\<close>

definition js_length :: "'a list \<Rightarrow> jsnum" where
  "js_length xs = Num (of_nat (length xs))"

definition totals :: "Enriched list \<Rightarrow> Totals" where
  "totals enr =
     (let t = foldl
           (\<lambda>acc e. acc\<lparr>
              dsa := js_add (dsa acc) (dsaQs (entry e)),
              apt := js_add (apt acc) (aptQs (entry e)),
              web := js_add (web acc) (webMin (entry e)),
              eng := js_add (eng acc) (engMin (entry e)),
              rewards := js_add (rewards acc)
                 (if outcome (scores e) = ''Reward'' then Num 1 else Num 0),
              fines := js_add (fines acc)
                 (if outcome (scores e) = ''Fine'' then Num 1 else Num 0),
              missed := js_add (missed acc)
                 (if outcome (scores e) = ''Missed'' then Num 1 else Num 0),
              totalFineAmount := js_add (totalFineAmount acc) (fine (scores e)) \<rparr>)
           \<lparr> dsa = Num 0, apt = Num 0, web = Num 0, eng = Num 0, rewards = Num 0,
             fines = Num 0, missed = Num 0, totalFineAmount = Num 0, consistency = Num 0 \<rparr>
           enr;
          consistency =
            (if truthy (js_length enr)
             then Math_round (js_mul
                    (js_div
                       (js_length (filter (\<lambda>e. js_eq (completion (scores e)) (Num 100)) enr))
                       (js_length enr))
                    (Num 100))
             else Num 0)
      in t\<lparr> consistency := consistency \<rparr>)"

text \<open>The chart series: \<open>completionSeries\<close> (the date without its first five
  characters, and the completion), \<open>timeSplit\<close> and \<open>rfSeries\<close>.\<close>

definition completionSeries :: "Enriched list \<Rightarrow> (string \<times> jsnum) list" where
  "completionSeries enr = map (\<lambda>e. (drop 5 (date (entry e)), completion (scores e))) enr"

definition timeSplit :: "Enriched list \<Rightarrow> (string \<times> jsnum) list" where
  "timeSplit enr =
     [(''DSA Minutes'', foldl (\<lambda>s e. js_add s (dsaMin (entry e))) (Num 0) enr),
      (''Aptitude Minutes'', foldl (\<lambda>s e. js_add s (aptMin (entry e))) (Num 0) enr),
      (''Web Dev Minutes'', foldl (\<lambda>s e. js_add s (webMin (entry e))) (Num 0) enr),
      (''English Minutes'', foldl (\<lambda>s e. js_add s (engMin (entry e))) (Num 0) enr)]"

definition rfSeries :: "Totals \<Rightarrow> (string \<times> jsnum) list" where
  "rfSeries t = [(''Reward'', rewards t), (''Fine'', fines t), (''Missed'', missed t)]"

text \<open>\<open>streaks\<close>: the loop over \<open>enriched\<close> with its two counters. The counters are
  integers that grow by one per element from 0, far below \<open>2^53\<close> for any array, so
  they are exact and carried as natural numbers.\<close>

record Streaks =
  current :: nat
  best :: nat

fun streaks_loop :: "nat \<Rightarrow> nat \<Rightarrow> Enriched list \<Rightarrow> Streaks" where
  "streaks_loop cur bst [] = \<lparr> current = cur, best = bst \<rparr>"
| "streaks_loop cur bst (e # es) =
     (if js_eq (completion (scores e)) (Num 100)
      then streaks_loop (cur + 1) (max bst (cur + 1)) es
      else streaks_loop 0 bst es)"

definition streaks :: "Enriched list \<Rightarrow> Streaks" where
  "streaks enr = streaks_loop 0 0 enr"

text \<open>The number of entries that are graded with a completion of 100.\<close>

definition perfectDays :: "Settings \<Rightarrow> Entry list \<Rightarrow> nat" where
  "perfectDays settings entries
     = length (filter (\<lambda>e. js_eq (completion (computeScores e settings)) (Num 100)) entries)"

text \<open>The consistency percentage in the specification's words, over the rationals:
  \<open>round(100 * count / total)\<close>, rounding to the nearest integer with a tie going up as
  \<open>Math.round\<close> does, and 0 when there are no records.\<close>

definition spec_consistency :: "nat \<Rightarrow> nat \<Rightarrow> int" where
  "spec_consistency c n
     = (if n = 0 then 0 else \<lfloor>100 * rat_of_nat c / rat_of_nat n + 1 / 2\<rfloor>)"

section \<open>Objects and arrays in a store\<close>

text \<open>
  Objects and arrays are passed by reference: \<open>sort\<close> reorders its array in place and
  the \<open>reduce\<close> of \<open>totals\<close> assigns to the fields of its accumulator, while \<open>slice\<close>,
  \<open>map\<close>, \<open>filter\<close> and an object literal build something new. To follow what a call
  writes, objects and arrays live in a store: a list of cells, the address of a cell being
  its position, and a new cell is appended. An object cell holds the values of its fields
  (numbers and strings, which cannot be changed in place); an array cell holds the
  addresses of its elements, so that a copy of an array shares the elements. A call that
  finds no cell of the expected kind at an address has no result.
\<close>

datatype cell = EntryObj Entry | SettingsObj Settings | ScoresObj Scores
  | EnrichedObj Enriched | TotalsObj Totals | StreaksObj Streaks | Array "nat list"

type_synonym store = "cell list"

definition alloc :: "store \<Rightarrow> cell \<Rightarrow> store \<times> nat" where
  "alloc h c = (h @ [c], length h)"

definition lookup :: "store \<Rightarrow> nat \<Rightarrow> cell option" where
  "lookup h a = (if a < length h then Some (h ! a) else None)"

definition get_entry :: "store \<Rightarrow> nat \<Rightarrow> Entry option" where
  "get_entry h a = (case lookup h a of Some (EntryObj e) \<Rightarrow> Some e | _ \<Rightarrow> None)"

definition get_settings :: "store \<Rightarrow> nat \<Rightarrow> Settings option" where
  "get_settings h a = (case lookup h a of Some (SettingsObj s) \<Rightarrow> Some s | _ \<Rightarrow> None)"

definition get_scores :: "store \<Rightarrow> nat \<Rightarrow> Scores option" where
  "get_scores h a = (case lookup h a of Some (ScoresObj s) \<Rightarrow> Some s | _ \<Rightarrow> None)"

definition get_enriched :: "store \<Rightarrow> nat \<Rightarrow> Enriched option" where
  "get_enriched h a = (case lookup h a of Some (EnrichedObj e) \<Rightarrow> Some e | _ \<Rightarrow> None)"

definition get_totals :: "store \<Rightarrow> nat \<Rightarrow> Totals option" where
  "get_totals h a = (case lookup h a of Some (TotalsObj t) \<Rightarrow> Some t | _ \<Rightarrow> None)"

definition get_streaks :: "store \<Rightarrow> nat \<Rightarrow> Streaks option" where
  "get_streaks h a = (case lookup h a of Some (StreaksObj t) \<Rightarrow> Some t | _ \<Rightarrow> None)"

definition get_array :: "store \<Rightarrow> nat \<Rightarrow> nat list option" where
  "get_array h a = (case lookup h a of Some (Array xs) \<Rightarrow> Some xs | _ \<Rightarrow> None)"

text \<open>The objects at a list of addresses, read with \<open>g\<close>.\<close>

fun read_list :: "(store \<Rightarrow> nat \<Rightarrow> 'a option) \<Rightarrow> store \<Rightarrow> nat list \<Rightarrow> 'a list option" where
  "read_list g h [] = Some []"
| "read_list g h (x # xs) =
     (case g h x of
        None \<Rightarrow> None
      | Some v \<Rightarrow> (case read_list g h xs of None \<Rightarrow> None | Some vs \<Rightarrow> Some (v # vs)))"

text \<open>The value of an array of entries, and of an array of enriched entries.\<close>

definition read_entries :: "store \<Rightarrow> nat \<Rightarrow> Entry list option" where
  "read_entries h a =
     (case get_array h a of None \<Rightarrow> None | Some xs \<Rightarrow> read_list get_entry h xs)"

definition read_enriched :: "store \<Rightarrow> nat \<Rightarrow> Enriched list option" where
  "read_enriched h a =
     (case get_array h a of None \<Rightarrow> None | Some xs \<Rightarrow> read_list get_enriched h xs)"

text \<open>\<open>computeScores(e, s)\<close> on the objects at two addresses: its body reads fields of
  \<open>e\<close> and \<open>s\<close>, and the object literal it returns is a new object.\<close>

definition computeScores_st :: "store \<Rightarrow> nat \<Rightarrow> nat \<Rightarrow> (store \<times> nat) option" where
  "computeScores_st h e s =
     (case get_entry h e of
        None \<Rightarrow> None
      | Some ev \<Rightarrow>
          (case get_settings h s of
             None \<Rightarrow> None
           | Some sv \<Rightarrow> Some (alloc h (ScoresObj (computeScores ev sv)))))"

text \<open>The spread \<open>{ ...e, ...sc }\<close>: a new object with the fields of both.\<close>

definition spread_st :: "store \<Rightarrow> nat \<Rightarrow> nat \<Rightarrow> (store \<times> nat) option" where
  "spread_st h e sc =
     (case get_entry h e of
        None \<Rightarrow> None
      | Some ev \<Rightarrow>
          (case get_scores h sc of
             None \<Rightarrow> None
           | Some sv \<Rightarrow> Some (alloc h (EnrichedObj \<lparr> entry = ev, scores = sv \<rparr>))))"

text \<open>The callback of the \<open>map\<close> in \<open>enriched\<close>.\<close>

definition enrich_st :: "nat \<Rightarrow> store \<Rightarrow> nat \<Rightarrow> (store \<times> nat) option" where
  "enrich_st s h e =
     (case computeScores_st h e s of None \<Rightarrow> None | Some (h1, sc) \<Rightarrow> spread_st h1 e sc)"

text \<open>The callback applied to the elements in order, each call running in the store
  the previous one left.\<close>

fun each_st :: "(store \<Rightarrow> nat \<Rightarrow> (store \<times> nat) option) \<Rightarrow> store \<Rightarrow> nat list
    \<Rightarrow> (store \<times> nat list) option" where
  "each_st f h [] = Some (h, [])"
| "each_st f h (x # xs) =
     (case f h x of
        None \<Rightarrow> None
      | Some (h1, r) \<Rightarrow>
          (case each_st f h1 xs of None \<Rightarrow> None | Some (h2, rs) \<Rightarrow> Some (h2, r # rs)))"

text \<open>\<open>a.slice()\<close>: a new array with the same elements.\<close>

definition slice_st :: "store \<Rightarrow> nat \<Rightarrow> (store \<times> nat) option" where
  "slice_st h a = (case get_array h a of None \<Rightarrow> None | Some xs \<Rightarrow> Some (alloc h (Array xs)))"

text \<open>\<open>a.sort((x, y) => x.date.localeCompare(y.date))\<close>: the array at \<open>a\<close> is
  overwritten with its elements in sorted order, and \<open>a\<close> is returned. The comparator
  reads the dates of the two elements.\<close>

definition sort_st :: "(string \<Rightarrow> string \<Rightarrow> int) \<Rightarrow> store \<Rightarrow> nat \<Rightarrow> (store \<times> nat) option" where
  "sort_st localeCompare h a =
     (case get_array h a of
        None \<Rightarrow> None
      | Some xs \<Rightarrow>
          (case read_list get_entry h xs of
             None \<Rightarrow> None
           | Some es \<Rightarrow>
               Some (h[a := Array (map fst
                       (jsSort (\<lambda>p q. localeCompare (date (snd p)) (date (snd q)))
                          (zip xs es)))], a)))"

text \<open>\<open>a.map(f)\<close>: a new array of the results of the callback.\<close>

definition map_st :: "(store \<Rightarrow> nat \<Rightarrow> (store \<times> nat) option) \<Rightarrow> store \<Rightarrow> nat
    \<Rightarrow> (store \<times> nat) option" where
  "map_st f h a =
     (case get_array h a of
        None \<Rightarrow> None
      | Some xs \<Rightarrow>
          (case each_st f h xs of None \<Rightarrow> None | Some (h1, rs) \<Rightarrow> Some (alloc h1 (Array rs))))"

text \<open>\<open>entries.slice().sort(...).map(...)\<close> for the array of entries at \<open>a\<close> and the
  settings at \<open>s\<close>: the final store and the address of the result.\<close>

definition enriched_st ::
    "(string \<Rightarrow> string \<Rightarrow> int) \<Rightarrow> store \<Rightarrow> nat \<Rightarrow> nat \<Rightarrow> (store \<times> nat) option" where
  "enriched_st localeCompare h a s =
     (case slice_st h a of
        None \<Rightarrow> None
      | Some (h1, c) \<Rightarrow>
          (case sort_st localeCompare h1 c of
             None \<Rightarrow> None
           | Some (h2, c') \<Rightarrow> map_st (enrich_st s) h2 c'))"

text \<open>The assignments of the callback of the \<open>reduce\<close> in \<open>totals\<close>, from the fields
  of the accumulator and of the element to the new fields of the accumulator.\<close>

definition acc_step :: "Totals \<Rightarrow> Enriched \<Rightarrow> Totals" where
  "acc_step t e = t\<lparr>
     dsa := js_add (dsa t) (dsaQs (entry e)),
     apt := js_add (apt t) (aptQs (entry e)),
     web := js_add (web t) (webMin (entry e)),
     eng := js_add (eng t) (engMin (entry e)),
     rewards := js_add (rewards t)
        (if outcome (scores e) = ''Reward'' then Num 1 else Num 0),
     fines := js_add (fines t)
        (if outcome (scores e) = ''Fine'' then Num 1 else Num 0),
     missed := js_add (missed t)
        (if outcome (scores e) = ''Missed'' then Num 1 else Num 0),
     totalFineAmount := js_add (totalFineAmount t) (fine (scores e)) \<rparr>"

text \<open>The callback itself: it writes the fields of the accumulator object at \<open>acc\<close> and
  returns that object.\<close>

definition accumulate_st :: "nat \<Rightarrow> store \<Rightarrow> nat \<Rightarrow> store option" where
  "accumulate_st acc h x =
     (case get_totals h acc of
        None \<Rightarrow> None
      | Some t \<Rightarrow>
          (case get_enriched h x of
             None \<Rightarrow> None
           | Some e \<Rightarrow> Some (h[acc := TotalsObj (acc_step t e)])))"

fun reduce_st :: "nat \<Rightarrow> store \<Rightarrow> nat list \<Rightarrow> store option" where
  "reduce_st acc h [] = Some h"
| "reduce_st acc h (x # xs) =
     (case accumulate_st acc h x of None \<Rightarrow> None | Some h1 \<Rightarrow> reduce_st acc h1 xs)"

text \<open>\<open>a.filter(e => e.completion === 100)\<close>: a new array of the elements that pass.\<close>

definition filter_st :: "store \<Rightarrow> nat \<Rightarrow> (store \<times> nat) option" where
  "filter_st h a =
     (case get_array h a of
        None \<Rightarrow> None
      | Some xs \<Rightarrow>
          (case read_list get_enriched h xs of
             None \<Rightarrow> None
           | Some es \<Rightarrow>
               Some (alloc h (Array (map fst
                 (filter (\<lambda>p. js_eq (completion (scores (snd p))) (Num 100)) (zip xs es)))))))"

text \<open>\<open>totals\<close> for the array at \<open>a\<close>: the accumulator is a new object, the \<open>reduce\<close>
  writes to it, the \<open>filter\<close> is evaluated when the array is not empty, and the
  result \<open>{ ...t, consistency }\<close> is another new object.\<close>

definition totals_st :: "store \<Rightarrow> nat \<Rightarrow> (store \<times> nat) option" where
  "totals_st h a =
     (case get_array h a of
        None \<Rightarrow> None
      | Some xs \<Rightarrow>
          (let (h1, acc) = alloc h (TotalsObj
                 \<lparr> dsa = Num 0, apt = Num 0, web = Num 0, eng = Num 0, rewards = Num 0,
                   fines = Num 0, missed = Num 0, totalFineAmount = Num 0,
                   consistency = Num 0 \<rparr>)
           in case reduce_st acc h1 xs of
                None \<Rightarrow> None
              | Some h2 \<Rightarrow>
                  (case get_totals h2 acc of
                     None \<Rightarrow> None
                   | Some t \<Rightarrow>
                       if truthy (js_length xs)
                       then (case filter_st h2 a of
                               None \<Rightarrow> None
                             | Some (h3, f) \<Rightarrow>
                                 (case get_array h3 f of
                                    None \<Rightarrow> None
                                  | Some fs \<Rightarrow>
                                      Some (alloc h3 (TotalsObj (t\<lparr> consistency :=
                                        Math_round (js_mul
                                          (js_div (js_length fs) (js_length xs))
                                          (Num 100)) \<rparr>)))))
                       else Some (alloc h2 (TotalsObj (t\<lparr> consistency := Num 0 \<rparr>))))))"

text \<open>\<open>streaks\<close> for the array at \<open>a\<close>: the loop reads the completion of each element
  into two local counters, and the result is a new object.\<close>

definition streaks_st :: "store \<Rightarrow> nat \<Rightarrow> (store \<times> nat) option" where
  "streaks_st h a =
     (case read_enriched h a of
        None \<Rightarrow> None
      | Some enr \<Rightarrow> Some (alloc h (StreaksObj (streaks enr))))"

text \<open>A store for concrete inputs: the four sample days, the array that holds them, and
  the default settings.\<close>

definition sampleStore :: store where
  "sampleStore =
     [EntryObj (sampleEntry ''2024-01-03'' (Num 0) (Num 0) (Num 0) (Num 0)),
      EntryObj (sampleEntry ''2024-01-01'' (Num 3) (Num 20) (Num 90) (Num 30)),
      EntryObj (sampleEntry ''2024-01-04'' (Num 3) (Num 20) (Num 90) (Num 30)),
      EntryObj (sampleEntry ''2024-01-02'' (Num 3) (Num 20) (Num 90) (Num 30)),
      Array [0, 1, 2, 3],
      SettingsObj defaultSettings]"

section \<open>Properties of the rounding\<close>

lemma powi_nat: "0 \<le> k \<Longrightarrow> (2::rat) powi k = of_int (2 ^ nat k)"
  by (simp add: power_int_nonneg_exp)

lemma powi_le_iff: "((2::rat) powi a \<le> 2 powi b) = (a \<le> b)"
proof
  assume le: "(2::rat) powi a \<le> 2 powi b"
  show "a \<le> b"
  proof (rule ccontr)
    assume "\<not> a \<le> b"
    then have "b < a" by simp
    then have "(2::rat) powi b < 2 powi a"
      by (rule power_int_strict_increasing) simp
    with le show False by simp
  qed
next
  assume "a \<le> b"
  then show "(2::rat) powi a \<le> 2 powi b"
    by (rule power_int_increasing) simp
qed

lemma powi_less_iff: "((2::rat) powi a < 2 powi b) = (a < b)"
  using powi_le_iff [of b a] by (simp add: not_le [symmetric])

lemma expo_bounds:
  assumes "0 < m"
  shows "2 powi expo m \<le> m" and "m < 2 powi (expo m + 1)"
proof -
  obtain a b where q: "quotient_of m = (a, b)" by (cases "quotient_of m")
  have bpos: "0 < b" using quotient_of_denom_pos [OF q] .
  have m: "m = of_int a / of_int b" using quotient_of_div [OF q] .
  have apos: "0 < a" using assms bpos m by (simp add: zero_less_divide_iff)
  define la where "la = bitlen a"
  define lb where "lb = bitlen b"
  have la1: "1 \<le> la"
    using apos bitlen_eq_zero_iff [of a] bitlen_nonneg [of a] by (simp add: la_def)
  have lb1: "1 \<le> lb"
    using bpos bitlen_eq_zero_iff [of b] bitlen_nonneg [of b] by (simp add: lb_def)
  from bitlen_bounds [OF apos] have "2 ^ nat (la - 1) \<le> a" and "a < 2 ^ nat la"
    by (simp_all add: la_def)
  then have "(of_int (2 ^ nat (la - 1)) :: rat) \<le> of_int a"
    and "(of_int a :: rat) < of_int (2 ^ nat la)"
    by (simp_all only: of_int_le_iff of_int_less_iff)
  with la1 have A_lo: "(2::rat) powi (la - 1) \<le> of_int a"
    and A_hi: "of_int a < (2::rat) powi la"
    by (simp_all add: powi_nat)
  from bitlen_bounds [OF bpos] have "2 ^ nat (lb - 1) \<le> b" and "b < 2 ^ nat lb"
    by (simp_all add: lb_def)
  then have "(of_int (2 ^ nat (lb - 1)) :: rat) \<le> of_int b"
    and "(of_int b :: rat) < of_int (2 ^ nat lb)"
    by (simp_all only: of_int_le_iff of_int_less_iff)
  with lb1 have B_lo: "(2::rat) powi (lb - 1) \<le> of_int b"
    and B_hi: "of_int b < (2::rat) powi lb"
    by (simp_all add: powi_nat)
  have ra: "0 < (of_int a :: rat)" and rb: "0 < (of_int b :: rat)"
    using apos bpos by simp_all
  have "m * 2 powi (lb - 1) \<le> m * of_int b"
    using B_lo assms by (simp add: mult_left_mono)
  also have "\<dots> = of_int a" using m rb by simp
  also have "\<dots> < 2 powi la" by (rule A_hi)
  finally have "m * 2 powi (lb - 1) < 2 powi la" .
  then have "m < 2 powi la / 2 powi (lb - 1)"
    by (simp add: pos_less_divide_eq)
  then have up: "m < 2 powi (la - lb + 1)"
    by (simp add: power_int_diff [symmetric] algebra_simps)
  have "2 powi (la - 1) \<le> (of_int a :: rat)" by (rule A_lo)
  also have "\<dots> = m * of_int b" using m rb by simp
  also have "\<dots> < m * 2 powi lb"
    using B_hi assms by (simp add: mult_strict_left_mono)
  finally have "2 powi (la - 1) / 2 powi lb < m"
    by (simp add: pos_divide_less_eq)
  then have lo: "2 powi (la - lb - 1) < m"
    by (simp add: power_int_diff [symmetric] algebra_simps)
  have e: "expo m = (if 2 powi (la - lb) \<le> m then la - lb else la - lb - 1)"
    by (simp add: expo_def q la_def lb_def Let_def)
  show "2 powi expo m \<le> m"
    using lo by (simp add: e)
  show "m < 2 powi (expo m + 1)"
    using up by (auto simp add: e not_le)
qed

lemma expo_unique:
  assumes "2 powi e \<le> m" and "m < 2 powi (e + 1)"
  shows "expo m = e"
proof -
  have "(0::rat) < 2 powi e" by simp
  with assms(1) have pos: "0 < m" by linarith
  from expo_bounds [OF pos] assms
  have "(2::rat) powi e < 2 powi (expo m + 1)" and "(2::rat) powi expo m < 2 powi (e + 1)"
    by linarith+
  then have "e < expo m + 1" and "expo m < e + 1"
    by (simp_all add: powi_less_iff)
  then show ?thesis by simp
qed

lemma expo_mono:
  assumes "0 < a" and "a \<le> b"
  shows "expo a \<le> expo b"
proof -
  from assms have bpos: "0 < b" by simp
  from expo_bounds [OF assms(1)] expo_bounds [OF bpos] assms(2)
  have "(2::rat) powi expo a < 2 powi (expo b + 1)" by linarith
  then show ?thesis by (simp add: powi_less_iff)
qed

lemma rne_of_int: "rne (of_int n) = n"
  by (simp add: rne_def)

lemma rne_cases: "rne x = \<lfloor>x\<rfloor> \<or> rne x = \<lfloor>x\<rfloor> + 1"
  by (simp add: rne_def Let_def)

lemma rne_err: "\<bar>of_int (rne x) - x\<bar> \<le> 1 / 2"
proof -
  have "of_int \<lfloor>x\<rfloor> \<le> x" and "x < of_int \<lfloor>x\<rfloor> + 1" by linarith+
  then show ?thesis
    by (auto simp add: rne_def Let_def abs_le_iff)
qed

lemma rne_mono:
  assumes "x \<le> y"
  shows "rne x \<le> rne y"
proof (cases "\<lfloor>x\<rfloor> = \<lfloor>y\<rfloor>")
  case True
  with assms show ?thesis
    by (auto simp add: rne_def Let_def)
next
  case False
  with assms have "\<lfloor>x\<rfloor> < \<lfloor>y\<rfloor>"
    using floor_mono [of x y] by simp
  moreover have "rne x \<le> \<lfloor>x\<rfloor> + 1" using rne_cases [of x] by auto
  moreover have "\<lfloor>y\<rfloor> \<le> rne y" using rne_cases [of y] by auto
  ultimately show ?thesis by simp
qed

lemma round_at_mono: "a \<le> b \<Longrightarrow> round_at e a \<le> round_at e b"
  unfolding round_at_def
  by (intro mult_right_mono rne_mono divide_right_mono) (simp_all del: of_int_le_iff add: of_int_le_iff rne_mono divide_right_mono)

lemma round_at_grid: "round_at e (of_int k * 2 powi (e - 52)) = of_int k * 2 powi (e - 52)"
  by (simp add: round_at_def rne_of_int)

lemma round_at_0: "round_at e 0 = 0"
  by (simp add: round_at_def rne_def)

lemma round_at_nonneg: "0 \<le> m \<Longrightarrow> 0 \<le> round_at e m"
  using round_at_mono [of 0 m e] by (simp add: round_at_0)

lemma powi_split52: "(2::rat) powi e = of_int (2 ^ 52) * 2 powi (e - 52)"
proof -
  have "(2::rat) powi e = 2 powi (52 + (e - 52))" by simp
  also have "\<dots> = 2 powi 52 * 2 powi (e - 52)" by (rule power_int_add) simp
  finally show ?thesis by simp
qed

lemma powi_split53: "(2::rat) powi (e + 1) = of_int (2 ^ 53) * 2 powi (e - 52)"
proof -
  have "e + 1 = 53 + (e - 52)" by simp
  then have "(2::rat) powi (e + 1) = 2 powi (53 + (e - 52))" by (simp only:)
  also have "\<dots> = 2 powi 53 * 2 powi (e - 52)" by (rule power_int_add) simp
  finally show ?thesis by simp
qed

lemma round_at_lower:
  assumes "2 powi e \<le> m"
  shows "2 powi e \<le> round_at e m"
proof -
  from round_at_grid [of e "2 ^ 52"] have "round_at e (2 powi e) = 2 powi e"
    by (simp only: powi_split52 [symmetric])
  with round_at_mono [OF assms, of e] show ?thesis by simp
qed

lemma round_at_upper:
  assumes "m \<le> 2 powi (e + 1)"
  shows "round_at e m \<le> 2 powi (e + 1)"
proof -
  from round_at_grid [of e "2 ^ 53"]
  have "round_at e (2 powi (e + 1)) = 2 powi (e + 1)"
    by (simp only: powi_split53 [symmetric])
  with round_at_mono [OF assms, of e] show ?thesis by simp
qed

lemma round64_0: "round64 0 = 0"
  by (simp add: round64_def round_at_0)

lemma round64_nonneg: "0 \<le> m \<Longrightarrow> 0 \<le> round64 m"
  by (simp add: round64_def round_at_nonneg)

lemma round64_mono:
  assumes "0 \<le> a" and "a \<le> b"
  shows "round64 a \<le> round64 b"
proof (cases "a = 0")
  case True
  with assms show ?thesis by (simp add: round64_0 round64_nonneg)
next
  case False
  with assms have apos: "0 < a" and bpos: "0 < b" by simp_all
  define ea where "ea = max (expo a) (- 1022)"
  define eb where "eb = max (expo b) (- 1022)"
  have le: "ea \<le> eb"
    using expo_mono [OF apos assms(2)] by (simp add: ea_def eb_def)
  show ?thesis
  proof (cases "ea = eb")
    case True
    then show ?thesis
      using round_at_mono [OF assms(2), of eb] by (simp add: round64_def ea_def eb_def)
  next
    case False
    with le have lt: "ea < eb" by simp
    then have eb: "eb = expo b" by (simp add: ea_def eb_def max_def split: if_splits)
    have "a < 2 powi (expo a + 1)" using expo_bounds [OF apos] by simp
    also have "\<dots> \<le> 2 powi (ea + 1)" by (simp add: powi_le_iff ea_def)
    finally have "round_at ea a \<le> 2 powi (ea + 1)"
      by (intro round_at_upper) simp
    also have "\<dots> \<le> 2 powi eb" using lt by (simp add: powi_le_iff)
    also have "\<dots> \<le> round_at eb b"
      using expo_bounds [OF bpos] by (intro round_at_lower) (simp add: eb)
    finally show ?thesis by (simp add: round64_def ea_def eb_def)
  qed
qed

lemma round64_eq_self:
  assumes "2 powi e \<le> m" and "m < 2 powi (e + 1)" and "- 1022 \<le> e"
    and "m = of_int k * 2 powi (e - 52)"
  shows "round64 m = m"
proof -
  have "expo m = e" using assms(1,2) by (rule expo_unique)
  with assms(3) have "round64 m = round_at e m" by (simp add: round64_def max_def)
  also have "\<dots> = m" using round_at_grid [of e k] assms(4) by simp
  finally show ?thesis .
qed

lemma round64_err:
  assumes "2 powi (- 1022) \<le> m"
  shows "\<bar>round64 m - m\<bar> \<le> m / 2 ^ 53"
proof -
  have "(0::rat) < 2 powi (- 1022)" by (rule zero_less_power_int) simp
  with assms have pos: "0 < m" by linarith
  define e where "e = expo m"
  define u :: rat where "u = 2 powi (e - 52)"
  have upos: "0 < u" by (simp add: u_def)
  from expo_bounds [OF pos] have lo: "2 powi e \<le> m" by (simp add: e_def)
  from assms expo_bounds(2) [OF pos] have "(2::rat) powi (- 1022) < 2 powi (e + 1)"
    unfolding e_def by (rule le_less_trans)
  then have "- 1022 < e + 1" by (simp only: powi_less_iff)
  then have "- 1022 \<le> e" by simp
  then have r: "round64 m = of_int (rne (m / u)) * u"
    by (simp add: round64_def round_at_def e_def u_def max_def)
  have "round64 m - m = (of_int (rne (m / u)) - m / u) * u"
    using upos by (simp add: r algebra_simps)
  then have "\<bar>round64 m - m\<bar> = \<bar>of_int (rne (m / u)) - m / u\<bar> * u"
    using upos by (simp only: abs_mult abs_of_pos)
  also have "\<dots> \<le> 1 / 2 * u"
    using rne_err [of "m / u"] upos by (intro mult_right_mono) simp_all
  also have "\<dots> = 2 powi e / 2 ^ 53"
    by (simp add: powi_split52 [of e] u_def)
  also have "\<dots> \<le> m / 2 ^ 53"
    using lo by (simp add: divide_right_mono)
  finally show ?thesis .
qed

lemma round64_1: "round64 1 = 1"
  by (rule round64_eq_self [where e = 0 and k = "2 ^ 52"]) simp_all

lemma round64_2: "round64 2 = 2"
  by (rule round64_eq_self [where e = 1 and k = "2 ^ 52"]) simp_all

lemma round64_3: "round64 3 = 3"
  by (rule round64_eq_self [where e = 1 and k = "3 * 2 ^ 51"]) simp_all

lemma round64_4: "round64 4 = 4"
  by (rule round64_eq_self [where e = 2 and k = "2 ^ 52"]) simp_all

lemma round64_100: "round64 100 = 100"
  by (rule round64_eq_self [where e = 6 and k = "25 * 2 ^ 48"]) simp_all

lemma round64_quarter: "round64 (1 / 4) = 1 / 4"
  by (rule round64_eq_self [where e = "- 2" and k = "2 ^ 52"]) simp_all

lemma round64_25: "round64 25 = 25"
  by (rule round64_eq_self [where e = 4 and k = "25 * 2 ^ 48"]) simp_all

section \<open>Properties of the operators\<close>

lemma expo_small:
  assumes "0 < r" and "r \<le> 1024"
  shows "expo r < 1024"
proof -
  have "(1024::rat) = 2 powi 10" by simp
  with expo_bounds(1) [OF assms(1)] assms(2) have "(2::rat) powi expo r \<le> 2 powi 10"
    by linarith
  then have "expo r \<le> 10" by (simp only: powi_le_iff)
  then show ?thesis by simp
qed

lemma fl_bound:
  assumes "0 \<le> m" and "m \<le> M" and "round64 M = M" and "M \<le> 1024"
  shows "fl False m = Num (round64 m) \<and> 0 \<le> round64 m \<and> round64 m \<le> M"
proof -
  have nn: "0 \<le> round64 m" using assms(1) by (rule round64_nonneg)
  have le: "round64 m \<le> M" using round64_mono [OF assms(1,2)] assms(3) by simp
  show ?thesis
  proof (cases "round64 m = 0")
    case True
    with nn le show ?thesis by (simp add: fl_def signed_zero_def)
  next
    case False
    with nn have "0 < round64 m" by simp
    moreover from le assms(4) have "round64 m \<le> 1024" by simp
    ultimately have "expo (round64 m) < 1024" by (rule expo_small)
    with False nn le show ?thesis by (simp add: fl_def Let_def)
  qed
qed

lemma fl_exact:
  assumes "round64 m = m" and "0 \<le> m" and "m \<le> 1024"
  shows "fl False m = Num m"
  using fl_bound [OF assms(2) order_refl assms(1) assms(3)] assms(1) by simp

lemma fl_pos_cases:
  "fl False m = PInf \<or> fl False m = Num (round64 m)"
  by (simp add: fl_def Let_def signed_zero_def signed_inf_def)

lemma fl_zero: "fl s 0 = signed_zero s"
  by (simp add: fl_def round64_0)

text \<open>The score expression of one dimension.\<close>

lemma score_not_NaN_PInf:
  "js_or (Math_min x (Num 1)) (Num 0) \<noteq> NaN \<and> js_or (Math_min x (Num 1)) (Num 0) \<noteq> PInf"
  by (cases x) (auto simp add: js_or_def Math_min_def js_lt_def truthy_def is_zero_def)

lemma score_zero_target:
  assumes "is_zero t" and "is_zero a \<or> a = NaN"
  shows "js_or (Math_min (js_div a t) (Num 1)) (Num 0) = Num 0"
proof -
  from assms have "js_div a t = NaN"
    by (auto simp add: js_div_def is_zero_def is_inf_def)
  then show ?thesis by (simp add: Math_min_def js_or_def truthy_def)
qed

lemma score_zero_target_pos:
  assumes "js_lt (Num 0) a"
  shows "js_or (Math_min (js_div a (Num 0)) (Num 1)) (Num 0) = Num 1"
proof -
  from assms have "js_div a (Num 0) = PInf"
    by (cases a) (auto simp add: js_div_def js_lt_def is_zero_def is_inf_def signed_inf_def)
  then show ?thesis
    by (simp add: Math_min_def js_or_def truthy_def js_lt_def is_zero_def)
qed

lemma score_zero_meas:
  assumes "is_zero a"
  shows "js_or (Math_min (js_div a t) (Num 1)) (Num 0) = Num 0"
proof -
  from assms have "js_div a t = NaN \<or> is_zero (js_div a t)"
    by (cases t)
       (auto simp add: js_div_def Let_def is_zero_def is_inf_def signed_zero_def fl_zero split: if_splits)
  then show ?thesis
    by (auto simp add: Math_min_def js_or_def truthy_def js_lt_def is_zero_def)
qed

section \<open>Properties of the entry operations\<close>

lemma findIndex_none: "(findIndex P xs < 0) = (\<forall>x \<in> set xs. \<not> P x)"
  by (induction xs) (auto simp: Let_def)

lemma findIndex_found:
  "0 \<le> findIndex P xs \<Longrightarrow>
     nat (findIndex P xs) < length xs \<and> P (xs ! nat (findIndex P xs))"
proof (induction xs)
  case Nil
  then show ?case by simp
next
  case (Cons x xs)
  show ?case
  proof (cases "P x")
    case True
    then show ?thesis by simp
  next
    case False
    with Cons.prems have nn: "0 \<le> findIndex P xs"
      by (simp add: Let_def split: if_splits)
    from Cons.IH [OF nn] False nn show ?thesis
      by (simp add: Let_def nat_add_distrib)
  qed
qed

lemma map_date_update:
  assumes "i < length es" and "date (es ! i) = date f"
  shows "map date (es[i := f]) = map date es"
  using assms by (simp add: map_update list_update_same_conv)

lemma addOrUpdateEntry_dates:
  "map date (addOrUpdateEntry form cur) =
     (if date form \<in> set (map date cur) then map date cur
      else map date cur @ [date form])"
proof (cases "0 \<le> findIndex (\<lambda>e. date e = date form) cur")
  case True
  from findIndex_found [OF True]
  have lt: "nat (findIndex (\<lambda>e. date e = date form) cur) < length cur"
    and eq: "date (cur ! nat (findIndex (\<lambda>e. date e = date form) cur)) = date form"
    by simp_all
  from lt eq have "date form \<in> set (map date cur)"
    by (metis length_map nth_map nth_mem)
  with True lt eq show ?thesis
    by (simp add: addOrUpdateEntry_def Let_def map_date_update del: set_map)
next
  case False
  then have "findIndex (\<lambda>e. date e = date form) cur < 0" by simp
  then have "date form \<notin> set (map date cur)"
    by (auto simp: findIndex_none)
  with False show ?thesis
    by (simp add: addOrUpdateEntry_def Let_def del: set_map)
qed

text \<open>
  C10. On a list of entries with pairwise distinct dates, \<open>addOrUpdateEntry\<close> overwrites
  the entry at the position of the form's date when there is one and appends the form
  otherwise, \<open>deleteEntry\<close> keeps exactly the entries whose date differs from the given
  one, and after either operation the dates are still pairwise distinct.
\<close>

theorem entry_operations_keep_dates_distinct:
  assumes "distinct (map date cur)"
  shows "(date form \<in> date ` set cur \<longrightarrow>
            (\<exists>i < length cur. date (cur ! i) = date form
               \<and> addOrUpdateEntry form cur = cur[i := form]))
       \<and> (date form \<notin> date ` set cur \<longrightarrow> addOrUpdateEntry form cur = cur @ [form])
       \<and> distinct (map date (addOrUpdateEntry form cur))
       \<and> deleteEntry d cur = filter (\<lambda>e. date e \<noteq> d) cur
       \<and> d \<notin> date ` set (deleteEntry d cur)
       \<and> distinct (map date (deleteEntry d cur))"
proof (intro conjI impI)
  assume mem: "date form \<in> date ` set cur"
  then have "\<not> findIndex (\<lambda>e. date e = date form) cur < 0"
    by (force simp: findIndex_none)
  then have nn: "0 \<le> findIndex (\<lambda>e. date e = date form) cur" by simp
  from findIndex_found [OF nn] nn
  show "\<exists>i < length cur. date (cur ! i) = date form
          \<and> addOrUpdateEntry form cur = cur[i := form]"
    by (intro exI [of _ "nat (findIndex (\<lambda>e. date e = date form) cur)"])
       (simp add: addOrUpdateEntry_def Let_def)
next
  assume "date form \<notin> date ` set cur"
  then have "\<forall>x \<in> set cur. date x \<noteq> date form"
    by (metis imageI)
  then have "findIndex (\<lambda>e. date e = date form) cur < 0"
    by (simp add: findIndex_none)
  then show "addOrUpdateEntry form cur = cur @ [form]"
    by (simp add: addOrUpdateEntry_def Let_def)
next
  from assms show "distinct (map date (addOrUpdateEntry form cur))"
    by (simp add: addOrUpdateEntry_dates del: set_map)
next
  show "deleteEntry d cur = filter (\<lambda>e. date e \<noteq> d) cur"
    by (simp add: deleteEntry_def)
next
  show "d \<notin> date ` set (deleteEntry d cur)"
    by (auto simp: deleteEntry_def)
next
  from assms show "distinct (map date (deleteEntry d cur))"
    by (simp add: deleteEntry_def distinct_map_filter)
qed

theorem entry_operations_keep_dates_distinct_witness:
  "distinct (map date [sampleEntry ''2024-01-01'' (Num 3) (Num 20) (Num 90) (Num 30),
                       sampleEntry ''2024-01-02'' (Num 0) (Num 0) (Num 0) (Num 0)])
   \<and> addOrUpdateEntry (sampleEntry ''2024-01-02'' (Num 1) (Num 2) (Num 3) (Num 4))
        [sampleEntry ''2024-01-01'' (Num 3) (Num 20) (Num 90) (Num 30),
         sampleEntry ''2024-01-02'' (Num 0) (Num 0) (Num 0) (Num 0)]
      = [sampleEntry ''2024-01-01'' (Num 3) (Num 20) (Num 90) (Num 30),
         sampleEntry ''2024-01-02'' (Num 1) (Num 2) (Num 3) (Num 4)]
   \<and> distinct (map date
        (addOrUpdateEntry (sampleEntry ''2024-01-02'' (Num 1) (Num 2) (Num 3) (Num 4))
          [sampleEntry ''2024-01-01'' (Num 3) (Num 20) (Num 90) (Num 30),
           sampleEntry ''2024-01-02'' (Num 0) (Num 0) (Num 0) (Num 0)]))
   \<and> distinct (map date
        (deleteEntry ''2024-01-01''
          [sampleEntry ''2024-01-01'' (Num 3) (Num 20) (Num 90) (Num 30),
           sampleEntry ''2024-01-02'' (Num 0) (Num 0) (Num 0) (Num 0)]))"
  using entry_operations_keep_dates_distinct
    [of "[sampleEntry ''2024-01-01'' (Num 3) (Num 20) (Num 90) (Num 30),
          sampleEntry ''2024-01-02'' (Num 0) (Num 0) (Num 0) (Num 0)]"
        "sampleEntry ''2024-01-02'' (Num 1) (Num 2) (Num 3) (Num 4)" "''2024-01-01''"]
  by (simp add: sampleEntry_def addOrUpdateEntry_def deleteEntry_def)

section \<open>Properties of the scoring\<close>

lemma computeScores_dsaScore:
  "dsaScore (computeScores e s)
     = js_or (Math_min (js_div (dsaQs e) (dsaQTarget s)) (Num 1)) (Num 0)"
  by (simp add: computeScores_def Let_def)

lemma computeScores_aptScore:
  "aptScore (computeScores e s)
     = js_or (Math_min (js_div (aptQs e) (aptQTarget s)) (Num 1)) (Num 0)"
  by (simp add: computeScores_def Let_def)

lemma computeScores_webScore:
  "webScore (computeScores e s)
     = js_or (Math_min (js_div (webMin e) (webMinTarget s)) (Num 1)) (Num 0)"
  by (simp add: computeScores_def Let_def)

lemma computeScores_engScore:
  "engScore (computeScores e s)
     = js_or (Math_min (js_div (engMin e) (engMinTarget s)) (Num 1)) (Num 0)"
  by (simp add: computeScores_def Let_def)

lemma computeScores_dimension:
  assumes "(m, t, sc) \<in> set dimensions"
  shows "sc (computeScores e s) = js_or (Math_min (js_div (m e) (t s)) (Num 1)) (Num 0)"
  using assms
  by (auto simp add: dimensions_def computeScores_dsaScore computeScores_aptScore
        computeScores_webScore computeScores_engScore)

lemma computeScores_completion:
  "completion (computeScores e s)
     = Math_round (js_mul
         (js_div (js_add (js_add (js_add (dsaScore (computeScores e s))
                                         (aptScore (computeScores e s)))
                                 (webScore (computeScores e s)))
                         (engScore (computeScores e s)))
                 (Num 4))
         (Num 100))"
  by (simp add: computeScores_def Let_def)

lemma computeScores_outcome:
  "outcome (computeScores e s)
     = (if js_eq (completion (computeScores e s)) (Num 100) then ''Reward''
        else if js_eq (completion (computeScores e s)) (Num 0) then ''Missed''
        else ''Fine'')"
  by (simp add: computeScores_def Let_def)



subsection \<open>Evaluating the operators on small numbers\<close>

lemma js_div_Num: "0 \<le> p \<Longrightarrow> 0 < q \<Longrightarrow> js_div (Num p) (Num q) = fl False (p / q)"
  by (simp add: js_div_def is_inf_def is_zero_def)

lemma js_mul_Num: "0 \<le> p \<Longrightarrow> 0 \<le> q \<Longrightarrow> js_mul (Num p) (Num q) = fl False (p * q)"
  by (simp add: js_mul_def is_inf_def is_zero_def)

lemma js_add_Num:
  "0 \<le> p \<Longrightarrow> 0 \<le> q \<Longrightarrow>
     js_add (Num p) (Num q) = (if p + q = 0 then Num 0 else fl False (p + q))"
  by (simp add: js_add_def is_inf_def Let_def)

lemma fl_0: "fl False 0 = Num 0"
  by (simp add: fl_zero signed_zero_def)

lemma fl_1: "fl False 1 = Num 1"
  by (rule fl_exact [OF round64_1]) simp_all

lemma fl_2: "fl False 2 = Num 2"
  by (rule fl_exact [OF round64_2]) simp_all

lemma fl_3: "fl False 3 = Num 3"
  by (rule fl_exact [OF round64_3]) simp_all

lemma fl_4: "fl False 4 = Num 4"
  by (rule fl_exact [OF round64_4]) simp_all

lemma fl_25: "fl False 25 = Num 25"
  by (rule fl_exact [OF round64_25]) simp_all

lemma fl_100: "fl False 100 = Num 100"
  by (rule fl_exact [OF round64_100]) simp_all

lemma fl_quarter: "fl False (1 / 4) = Num (1 / 4)"
  by (rule fl_exact [OF round64_quarter]) simp_all

lemma Math_round_nonneg: "0 \<le> q \<Longrightarrow> Math_round (Num q) = Num (of_int \<lfloor>q + 1 / 2\<rfloor>)"
  by (simp add: Let_def)

lemma Math_round_of_int: "Math_round (Num (of_int n)) = Num (of_int n)"
proof -
  have "\<lfloor>(of_int n :: rat) + 1 / 2\<rfloor> = n" by (simp add: floor_eq_iff)
  then show ?thesis by (simp add: Let_def)
qed

declare Math_round.simps(1) [simp del]

lemma Math_round_0: "Math_round (Num 0) = Num 0"
  using Math_round_of_int [of 0] by simp

lemma Math_round_25: "Math_round (Num 25) = Num 25"
  using Math_round_of_int [of 25] by simp

lemma Math_round_100: "Math_round (Num 100) = Num 100"
  using Math_round_of_int [of 100] by simp

lemmas eval_simps = js_div_Num js_mul_Num js_add_Num fl_0 fl_1 fl_2 fl_3 fl_4 fl_25 fl_100
  fl_quarter Math_round_0 Math_round_25 Math_round_100


text \<open>The three records of the specification's example, under the default settings.\<close>

lemma example_all_met:
  "computeScores (sampleEntry d (Num 3) (Num 20) (Num 90) (Num 30)) defaultSettings
     = \<lparr> dsaScore = Num 1, aptScore = Num 1, webScore = Num 1, engScore = Num 1,
         completion = Num 100, outcome = ''Reward'', fine = Num 0,
         autoNote = [Lit ''30 min entertainment''] \<rparr>"
  by (simp add: computeScores_def sampleEntry_def defaultSettings_def Let_def eval_simps
        Math_min_def js_lt_def js_or_def truthy_def is_zero_def js_eq_def)

lemma example_all_zero:
  "computeScores (sampleEntry d (Num 0) (Num 0) (Num 0) (Num 0)) defaultSettings
     = \<lparr> dsaScore = Num 0, aptScore = Num 0, webScore = Num 0, engScore = Num 0,
         completion = Num 0, outcome = ''Missed'', fine = Num 0,
         autoNote = [Lit (''Fine '' @ rupee), Interp (Num 50), Lit '' + plan next day''] \<rparr>"
  by (simp add: computeScores_def sampleEntry_def defaultSettings_def Let_def eval_simps
        Math_min_def js_lt_def js_or_def truthy_def is_zero_def js_eq_def)

lemma example_one_met:
  "computeScores (sampleEntry d (Num 3) (Num 0) (Num 0) (Num 0)) defaultSettings
     = \<lparr> dsaScore = Num 1, aptScore = Num 0, webScore = Num 0, engScore = Num 0,
         completion = Num 25, outcome = ''Fine'', fine = Num 50,
         autoNote = [Lit (''Fine '' @ rupee), Interp (Num 50)] \<rparr>"
  by (simp add: computeScores_def sampleEntry_def defaultSettings_def Let_def eval_simps
        Math_min_def js_lt_def js_or_def truthy_def is_zero_def js_eq_def)


section \<open>Claims about the scoring\<close>

text \<open>
  C1 (as amended). For each dimension whose target is zero the score is 0 when the
  measurement is zero or NaN, and 1 when the target is \<open>+0\<close> and the measurement is
  strictly positive; for every input the score is neither NaN nor \<open>+Infinity\<close>.
\<close>

theorem zero_target_score:
  "\<forall>(m, t, sc) \<in> set dimensions.
      (is_zero (t s) \<and> (is_zero (m e) \<or> m e = NaN) \<longrightarrow> sc (computeScores e s) = Num 0)
    \<and> (t s = Num 0 \<and> js_lt (Num 0) (m e) \<longrightarrow> sc (computeScores e s) = Num 1)
    \<and> sc (computeScores e s) \<noteq> NaN \<and> sc (computeScores e s) \<noteq> PInf"
proof (intro ballI, clarify, intro conjI impI)
  fix m t sc
  assume d: "(m, t, sc) \<in> set dimensions"
  note eq = computeScores_dimension [OF d, of e s]
  show "sc (computeScores e s) = Num 0"
    if "is_zero (t s) \<and> (is_zero (m e) \<or> m e = NaN)"
    using that by (simp add: eq score_zero_target)
  show "sc (computeScores e s) = Num 1" if "t s = Num 0 \<and> js_lt (Num 0) (m e)"
    using that by (simp add: eq score_zero_target_pos)
  show "sc (computeScores e s) \<noteq> NaN" and "sc (computeScores e s) \<noteq> PInf"
    using score_not_NaN_PInf by (simp_all add: eq)
qed

theorem zero_target_score_witness:
  "(dsaQs, dsaQTarget, dsaScore) \<in> set dimensions
   \<and> dsaQTarget noDsaTarget = Num 0 \<and> js_lt (Num 0) (dsaQs dayFive)
   \<and> dsaScore (computeScores dayFive noDsaTarget) = Num 1
   \<and> is_zero (dsaQTarget noDsaTarget) \<and> is_zero (dsaQs dayNoDsa)
   \<and> dsaScore (computeScores dayNoDsa noDsaTarget) = Num 0"
proof -
  have d: "(dsaQs, dsaQTarget, dsaScore) \<in> set dimensions" by (simp add: dimensions_def)
  have h: "dsaQTarget noDsaTarget = Num 0 \<and> js_lt (Num 0) (dsaQs dayFive)"
    by (simp add: noDsaTarget_def dayFive_def sampleEntry_def js_lt_def)
  have z: "is_zero (dsaQTarget noDsaTarget) \<and> is_zero (dsaQs dayNoDsa)"
    by (simp add: noDsaTarget_def dayNoDsa_def sampleEntry_def is_zero_def)
  from zero_target_score [of noDsaTarget dayFive] d h
  have "dsaScore (computeScores dayFive noDsaTarget) = Num 1" by blast
  moreover from zero_target_score [of noDsaTarget dayNoDsa] d z
  have "dsaScore (computeScores dayNoDsa noDsaTarget) = Num 0" by blast
  ultimately show ?thesis using d h z by blast
qed

theorem zero_target_score_counterexample:
  "dsaQTarget noDsaTarget = Num 0
   \<and> dsaScore (computeScores dayFive noDsaTarget) = Num 1
   \<and> Num 1 \<noteq> Num 0
   \<and> dsaScore (computeScores dayNegative noDsaTarget) = NInf"
proof -
  have "js_div (Num (- 3)) (Num 0) = NInf"
    by (simp add: js_div_def is_inf_def is_zero_def signed_inf_def)
  then have "dsaScore (computeScores dayNegative noDsaTarget) = NInf"
    by (simp add: computeScores_dsaScore dayNegative_def noDsaTarget_def sampleEntry_def
          defaultSettings_def Math_min_def js_lt_def js_or_def truthy_def is_zero_def)
  then show ?thesis
    by (simp add: computeScores_dsaScore dayFive_def noDsaTarget_def sampleEntry_def
          defaultSettings_def score_zero_target_pos js_lt_def)
qed

lemma all_zero_missed:
  assumes "is_zero (dsaQs e)" and "is_zero (aptQs e)" and "is_zero (webMin e)"
    and "is_zero (engMin e)"
  shows "completion (computeScores e s) = Num 0"
    and "outcome (computeScores e s) = ''Missed''"
proof -
  from assms
  have sc: "dsaScore (computeScores e s) = Num 0" "aptScore (computeScores e s) = Num 0"
      "webScore (computeScores e s) = Num 0" "engScore (computeScores e s) = Num 0"
    by (simp_all add: computeScores_dsaScore computeScores_aptScore computeScores_webScore
          computeScores_engScore score_zero_meas)
  show c: "completion (computeScores e s) = Num 0"
    by (simp add: computeScores_completion sc eval_simps)
  show "outcome (computeScores e s) = ''Missed''"
    by (simp add: computeScores_outcome c js_eq_def is_zero_def)
qed

text \<open>
  C3. The outcome is \<open>Reward\<close> when the completion equals 100, \<open>Missed\<close> when it equals
  0 and \<open>Fine\<close> otherwise; an entry whose four measurements are all zero has completion
  0 and outcome \<open>Missed\<close>, whatever the settings.
\<close>

theorem outcome_thresholds:
  "outcome (computeScores e s)
     = (if js_eq (completion (computeScores e s)) (Num 100) then ''Reward''
        else if js_eq (completion (computeScores e s)) (Num 0) then ''Missed''
        else ''Fine'')
   \<and> (is_zero (dsaQs e) \<and> is_zero (aptQs e) \<and> is_zero (webMin e) \<and> is_zero (engMin e)
        \<longrightarrow> completion (computeScores e s) = Num 0
            \<and> outcome (computeScores e s) = ''Missed'')"
  using computeScores_outcome [of e s] all_zero_missed [of e s] by blast

theorem outcome_thresholds_witness:
  "is_zero (dsaQs dayNothing) \<and> is_zero (aptQs dayNothing) \<and> is_zero (webMin dayNothing)
   \<and> is_zero (engMin dayNothing)
   \<and> completion (computeScores dayNothing noDsaTarget) = Num 0
   \<and> outcome (computeScores dayNothing noDsaTarget) = ''Missed''"
proof -
  have h: "is_zero (dsaQs dayNothing) \<and> is_zero (aptQs dayNothing)
      \<and> is_zero (webMin dayNothing) \<and> is_zero (engMin dayNothing)"
    by (simp add: dayNothing_def sampleEntry_def is_zero_def)
  from outcome_thresholds [of dayNothing noDsaTarget] h show ?thesis by blast
qed

subsection \<open>A dimension whose target is met\<close>

lemma Math_min_ge1:
  assumes "x = PInf \<or> (\<exists>r. x = Num r \<and> 1 \<le> r)"
  shows "Math_min x (Num 1) = Num 1"
  using assms by (auto simp add: Math_min_def js_lt_def)

lemma score_met:
  assumes "is_finite t" and "\<not> signbit t" and "js_ge a t" and "js_lt (Num 0) a"
  shows "js_or (Math_min (js_div a t) (Num 1)) (Num 0) = Num 1"
proof -
  from assms(1,2) obtain q where t: "t = Num q" and q: "0 \<le> q"
    by (cases t) auto
  show ?thesis
  proof (cases "q = 0")
    case True
    with t assms(4) show ?thesis by (simp add: score_zero_target_pos)
  next
    case False
    with q have qpos: "0 < q" by simp
    from assms(4) have a: "a = PInf \<or> (\<exists>p. a = Num p \<and> 0 < p)"
      by (cases a) (auto simp add: js_lt_def)
    have "js_div a t = PInf \<or> (\<exists>r. js_div a t = Num r \<and> 1 \<le> r)"
    proof (cases "a = PInf")
      case True
      with q show ?thesis
        by (simp add: t js_div_def is_inf_def signed_inf_def)
    next
      case False
      with a obtain p where p: "a = Num p" and ppos: "0 < p" by auto
      from assms(3) have "q \<le> p"
        by (auto simp add: p t js_ge_def js_lt_def js_eq_def is_zero_def)
      with qpos have "1 \<le> p / q" by (simp add: pos_le_divide_eq)
      then have "round64 1 \<le> round64 (p / q)" by (intro round64_mono) simp_all
      then have "1 \<le> round64 (p / q)" by (simp add: round64_1)
      moreover have "js_div a t = fl False (p / q)"
        using ppos qpos by (simp add: p t js_div_Num)
      ultimately show ?thesis using fl_pos_cases [of "p / q"] by auto
    qed
    then have "Math_min (js_div a t) (Num 1) = Num 1" by (rule Math_min_ge1)
    then show ?thesis by (simp add: js_or_def truthy_def is_zero_def)
  qed
qed

lemma round64_three_quarters: "round64 (3 / 4) = 3 / 4"
  by (rule round64_eq_self [where e = "- 1" and k = "3 * 2 ^ 51"]) simp_all

lemma round64_75: "round64 75 = 75"
  by (rule round64_eq_self [where e = 6 and k = "75 * 2 ^ 46"]) simp_all

lemma fl_three_quarters: "fl False (3 / 4) = Num (3 / 4)"
  by (rule fl_exact [OF round64_three_quarters]) simp_all

lemma fl_75: "fl False 75 = Num 75"
  by (rule fl_exact [OF round64_75]) simp_all

lemma Math_round_75: "Math_round (Num 75) = Num 75"
  using Math_round_of_int [of 75] by simp

lemma completion_all_one:
  assumes "dsaScore (computeScores e s) = Num 1" and "aptScore (computeScores e s) = Num 1"
    and "webScore (computeScores e s) = Num 1" and "engScore (computeScores e s) = Num 1"
  shows "completion (computeScores e s) = Num 100"
  by (simp add: computeScores_completion assms eval_simps)

text \<open>
  C2 (as amended). When each of the four measurements is strictly positive and at least
  its target, and each target is a finite number that is \<open>+0\<close> or positive, the
  completion is 100 and the outcome is \<open>Reward\<close>, however far the targets are exceeded.
\<close>

theorem all_targets_met:
  assumes "\<forall>(m, t, sc) \<in> set dimensions.
      js_ge (m e) (t s) \<and> is_finite (t s) \<and> \<not> signbit (t s) \<and> js_lt (Num 0) (m e)"
  shows "completion (computeScores e s) = Num 100
       \<and> outcome (computeScores e s) = ''Reward''"
proof -
  have one: "sc (computeScores e s) = Num 1" if "(m, t, sc) \<in> set dimensions" for m t sc
    using that assms computeScores_dimension [OF that, of e s]
    by (auto simp add: score_met)
  have c: "completion (computeScores e s) = Num 100"
    using one [of dsaQs dsaQTarget dsaScore] one [of aptQs aptQTarget aptScore]
      one [of webMin webMinTarget webScore] one [of engMin engMinTarget engScore]
    by (intro completion_all_one) (simp_all add: dimensions_def)
  then show ?thesis by (simp add: computeScores_outcome js_eq_def)
qed

theorem all_targets_met_witness:
  "js_ge (dsaQs dayOver) (dsaQTarget noDsaTarget) \<and> is_finite (dsaQTarget noDsaTarget)
     \<and> \<not> signbit (dsaQTarget noDsaTarget) \<and> js_lt (Num 0) (dsaQs dayOver)
   \<and> js_ge (aptQs dayOver) (aptQTarget noDsaTarget) \<and> is_finite (aptQTarget noDsaTarget)
     \<and> \<not> signbit (aptQTarget noDsaTarget) \<and> js_lt (Num 0) (aptQs dayOver)
   \<and> js_ge (webMin dayOver) (webMinTarget noDsaTarget)
     \<and> is_finite (webMinTarget noDsaTarget)
     \<and> \<not> signbit (webMinTarget noDsaTarget) \<and> js_lt (Num 0) (webMin dayOver)
   \<and> js_ge (engMin dayOver) (engMinTarget noDsaTarget)
     \<and> is_finite (engMinTarget noDsaTarget)
     \<and> \<not> signbit (engMinTarget noDsaTarget) \<and> js_lt (Num 0) (engMin dayOver)
   \<and> completion (computeScores dayOver noDsaTarget) = Num 100
   \<and> outcome (computeScores dayOver noDsaTarget) = ''Reward''"
proof -
  have h: "\<forall>(m, t, sc) \<in> set dimensions.
      js_ge (m dayOver) (t noDsaTarget) \<and> is_finite (t noDsaTarget)
      \<and> \<not> signbit (t noDsaTarget) \<and> js_lt (Num 0) (m dayOver)"
    by (simp add: dimensions_def dayOver_def noDsaTarget_def sampleEntry_def
          defaultSettings_def js_ge_def js_lt_def js_eq_def is_zero_def)
  from all_targets_met [OF h] h show ?thesis by (simp add: dimensions_def)
qed

theorem all_targets_met_counterexample:
  "js_ge (dsaQs dayNoDsa) (dsaQTarget noDsaTarget)
   \<and> js_ge (aptQs dayNoDsa) (aptQTarget noDsaTarget)
   \<and> js_ge (webMin dayNoDsa) (webMinTarget noDsaTarget)
   \<and> js_ge (engMin dayNoDsa) (engMinTarget noDsaTarget)
   \<and> completion (computeScores dayNoDsa noDsaTarget) = Num 75
   \<and> outcome (computeScores dayNoDsa noDsaTarget) = ''Fine''"
proof -
  have ge: "js_ge (dsaQs dayNoDsa) (dsaQTarget noDsaTarget)
      \<and> js_ge (aptQs dayNoDsa) (aptQTarget noDsaTarget)
      \<and> js_ge (webMin dayNoDsa) (webMinTarget noDsaTarget)
      \<and> js_ge (engMin dayNoDsa) (engMinTarget noDsaTarget)"
    by (simp add: dayNoDsa_def noDsaTarget_def sampleEntry_def defaultSettings_def
          js_ge_def js_lt_def js_eq_def is_zero_def)
  have d: "dsaScore (computeScores dayNoDsa noDsaTarget) = Num 0"
    by (simp add: computeScores_dsaScore score_zero_target dayNoDsa_def noDsaTarget_def
          sampleEntry_def defaultSettings_def is_zero_def)
  have a: "aptScore (computeScores dayNoDsa noDsaTarget) = Num 1"
    by (simp add: computeScores_aptScore score_met dayNoDsa_def noDsaTarget_def
          sampleEntry_def defaultSettings_def js_ge_def js_lt_def js_eq_def)
  have w: "webScore (computeScores dayNoDsa noDsaTarget) = Num 1"
    by (simp add: computeScores_webScore score_met dayNoDsa_def noDsaTarget_def
          sampleEntry_def defaultSettings_def js_ge_def js_lt_def js_eq_def)
  have g: "engScore (computeScores dayNoDsa noDsaTarget) = Num 1"
    by (simp add: computeScores_engScore score_met dayNoDsa_def noDsaTarget_def
          sampleEntry_def defaultSettings_def js_ge_def js_lt_def js_eq_def)
  have c: "completion (computeScores dayNoDsa noDsaTarget) = Num 75"
    by (simp add: computeScores_completion d a w g eval_simps fl_three_quarters fl_75
          Math_round_75)
  have "outcome (computeScores dayNoDsa noDsaTarget) = ''Fine''"
    by (simp add: computeScores_outcome c js_eq_def is_zero_def)
  with ge c show ?thesis by blast
qed

subsection \<open>Bounds of the scores and of the completion\<close>

lemma js_div_nonneg:
  assumes "\<not> signbit a" and "\<not> signbit t"
  shows "js_div a t = NaN \<or> js_div a t = PInf \<or> (\<exists>r. js_div a t = Num r \<and> 0 \<le> r)"
proof -
  have "0 \<le> mag a / mag t" by (cases a; cases t) simp_all
  then have "0 \<le> round64 (mag a / mag t)" by (rule round64_nonneg)
  with fl_pos_cases [of "mag a / mag t"]
  have "fl False (mag a / mag t) = PInf
      \<or> (\<exists>r. fl False (mag a / mag t) = Num r \<and> 0 \<le> r)" by auto
  with assms show ?thesis
    by (auto simp add: js_div_def signed_inf_def signed_zero_def)
qed

lemma score_upper: 
  "\<not> js_lt (Num 1) (js_or (Math_min x (Num 1)) (Num 0))"
  by (cases x) (auto simp add: js_or_def Math_min_def js_lt_def truthy_def is_zero_def)

lemma score_of_nonneg:
  assumes "x = NaN \<or> x = PInf \<or> (\<exists>r. x = Num r \<and> 0 \<le> r)"
  shows "\<exists>q. js_or (Math_min x (Num 1)) (Num 0) = Num q \<and> 0 \<le> q \<and> q \<le> 1"
  using assms
  by (auto simp add: js_or_def Math_min_def js_lt_def truthy_def is_zero_def)

lemma score_unit:
  assumes "\<not> signbit a" and "\<not> signbit t"
  shows "\<exists>q. js_or (Math_min (js_div a t) (Num 1)) (Num 0) = Num q \<and> 0 \<le> q \<and> q \<le> 1"
  by (rule score_of_nonneg) (rule js_div_nonneg [OF assms])

lemma js_add_bound:
  assumes "0 \<le> a" and "a \<le> A" and "0 \<le> b" and "b \<le> B"
    and "round64 (A + B) = A + B" and "A + B \<le> 1024"
  shows "\<exists>r. js_add (Num a) (Num b) = Num r \<and> 0 \<le> r \<and> r \<le> A + B"
proof (cases "a + b = 0")
  case True
  with assms(1-4) show ?thesis by (simp add: js_add_Num)
next
  case False
  from assms(1-4) have "0 \<le> a + b" and "a + b \<le> A + B" by simp_all
  from fl_bound [OF this assms(5,6)] False assms(1,3) show ?thesis
    by (simp add: js_add_Num)
qed

lemma completion_of_unit_scores:
  assumes "0 \<le> q1" "q1 \<le> 1" "0 \<le> q2" "q2 \<le> 1" "0 \<le> q3" "q3 \<le> 1" "0 \<le> q4" "q4 \<le> 1"
  shows "\<exists>n. Math_round (js_mul
            (js_div (js_add (js_add (js_add (Num q1) (Num q2)) (Num q3)) (Num q4)) (Num 4))
            (Num 100)) = Num (of_int n) \<and> 0 \<le> n \<and> n \<le> 100"
proof -
  from js_add_bound [OF assms(1-4)] obtain r2
    where r2: "js_add (Num q1) (Num q2) = Num r2" "0 \<le> r2" "r2 \<le> 2"
    by (auto simp add: round64_2)
  from js_add_bound [OF r2(2,3) assms(5,6)] obtain r3
    where r3: "js_add (Num r2) (Num q3) = Num r3" "0 \<le> r3" "r3 \<le> 3"
    by (auto simp add: round64_3)
  from js_add_bound [OF r3(2,3) assms(7,8)] obtain r4
    where r4: "js_add (Num r3) (Num q4) = Num r4" "0 \<le> r4" "r4 \<le> 4"
    by (auto simp add: round64_4)
  from r4(2,3) have "0 \<le> r4 / 4" and "r4 / 4 \<le> 1" by simp_all
  from fl_bound [OF this] have
    d: "js_div (Num r4) (Num 4) = Num (round64 (r4 / 4))"
      "0 \<le> round64 (r4 / 4)" "round64 (r4 / 4) \<le> 1"
    using r4(2) by (simp_all add: round64_1 js_div_Num)
  from d(2,3) have "0 \<le> round64 (r4 / 4) * 100" and "round64 (r4 / 4) * 100 \<le> 100"
    by simp_all
  from fl_bound [OF this] obtain y
    where y: "js_mul (Num (round64 (r4 / 4))) (Num 100) = Num y" "0 \<le> y" "y \<le> 100"
    using d(2) by (auto simp add: round64_100 js_mul_Num)
  have "0 \<le> \<lfloor>y + 1 / 2\<rfloor>" using y(2) by simp
  moreover have "\<lfloor>y + 1 / 2\<rfloor> \<le> 100"
  proof -
    from y(3) have "y + 1 / 2 < 101" by simp
    then have "\<lfloor>y + 1 / 2\<rfloor> < 101" by (simp add: floor_less_iff)
    then show ?thesis by simp
  qed
  ultimately show ?thesis
    using y(2) by (simp add: r2 r3 r4 d y Math_round_nonneg)
qed

lemma completion_integer:
  assumes "\<forall>(m, t, sc) \<in> set dimensions. \<not> signbit (m e) \<and> \<not> signbit (t s)"
  shows "\<exists>n. completion (computeScores e s) = Num (of_int n) \<and> 0 \<le> n \<and> n \<le> 100"
proof -
  from assms have sb: "\<not> signbit (dsaQs e)" "\<not> signbit (dsaQTarget s)"
      "\<not> signbit (aptQs e)" "\<not> signbit (aptQTarget s)"
      "\<not> signbit (webMin e)" "\<not> signbit (webMinTarget s)"
      "\<not> signbit (engMin e)" "\<not> signbit (engMinTarget s)"
    by (simp_all add: dimensions_def)
  from score_unit [OF sb(1,2)] obtain q1
    where q1: "dsaScore (computeScores e s) = Num q1" "0 \<le> q1" "q1 \<le> 1"
    by (auto simp add: computeScores_dsaScore)
  from score_unit [OF sb(3,4)] obtain q2
    where q2: "aptScore (computeScores e s) = Num q2" "0 \<le> q2" "q2 \<le> 1"
    by (auto simp add: computeScores_aptScore)
  from score_unit [OF sb(5,6)] obtain q3
    where q3: "webScore (computeScores e s) = Num q3" "0 \<le> q3" "q3 \<le> 1"
    by (auto simp add: computeScores_webScore)
  from score_unit [OF sb(7,8)] obtain q4
    where q4: "engScore (computeScores e s) = Num q4" "0 \<le> q4" "q4 \<le> 1"
    by (auto simp add: computeScores_engScore)
  from completion_of_unit_scores [OF q1(2,3) q2(2,3) q3(2,3) q4(2,3)]
  show ?thesis by (simp add: computeScores_completion q1 q2 q3 q4)
qed


lemma fl_exact_neg:
  assumes "round64 m = m" and "0 < m" and "m \<le> 1024"
  shows "fl True m = Num (- m)"
  using assms expo_small [OF assms(2,3)] by (simp add: fl_def)

lemma example_negative:
  "dsaScore (computeScores (sampleEntry d (Num (- 3)) (Num 0) (Num 0) (Num 0))
       defaultSettings) = Num (- 1)
   \<and> completion (computeScores (sampleEntry d (Num (- 3)) (Num 0) (Num 0) (Num 0))
       defaultSettings) = Num (- 25)"
proof -
  let ?e = "sampleEntry d (Num (- 3)) (Num 0) (Num 0) (Num 0)"
  have f1: "fl True 1 = Num (- 1)" by (rule fl_exact_neg [OF round64_1]) simp_all
  have f4: "fl True (1 / 4) = Num (- (1 / 4))"
    by (rule fl_exact_neg [OF round64_quarter]) simp_all
  have f25: "fl True 25 = Num (- 25)" by (rule fl_exact_neg [OF round64_25]) simp_all
  have d: "dsaScore (computeScores ?e defaultSettings) = Num (- 1)"
    by (simp add: computeScores_dsaScore sampleEntry_def defaultSettings_def js_div_def
          is_inf_def is_zero_def f1 Math_min_def js_lt_def js_or_def truthy_def)
  have z: "aptScore (computeScores ?e defaultSettings) = Num 0"
      "webScore (computeScores ?e defaultSettings) = Num 0"
      "engScore (computeScores ?e defaultSettings) = Num 0"
    by (simp_all add: computeScores_aptScore computeScores_webScore computeScores_engScore
          score_zero_meas sampleEntry_def is_zero_def)
  have r: "Math_round (Num (- 25)) = Num (- 25)"
    using Math_round_of_int [of "- 25"] by simp
  have "completion (computeScores ?e defaultSettings) = Num (- 25)"
    by (simp add: computeScores_completion d z js_add_def js_div_def js_mul_def is_inf_def
          is_zero_def f1 f4 f25 r)
  with d show ?thesis by simp
qed

text \<open>
  C4 (as amended). For every entry and settings each of the four scores is a number
  (not NaN) that is at most 1, and the completion is \<open>Math.round\<close> of a quarter of
  the sum of the four scores times 100. When no measurement and no target has its sign bit
  set (none is negative or \<open>-0\<close>), each score lies in [0,1] and the completion is an
  integer in [0,100].
\<close>

theorem scores_and_completion_range:
  "(\<forall>(m, t, sc) \<in> set dimensions.
       sc (computeScores e s) \<noteq> NaN \<and> \<not> js_lt (Num 1) (sc (computeScores e s)))
   \<and> completion (computeScores e s)
       = Math_round (js_mul
           (js_div (js_add (js_add (js_add (dsaScore (computeScores e s))
                                           (aptScore (computeScores e s)))
                                   (webScore (computeScores e s)))
                           (engScore (computeScores e s)))
                   (Num 4))
           (Num 100))
   \<and> ((\<forall>(m, t, sc) \<in> set dimensions. \<not> signbit (m e) \<and> \<not> signbit (t s)) \<longrightarrow>
        (\<forall>(m, t, sc) \<in> set dimensions.
            js_ge (sc (computeScores e s)) (Num 0) \<and> js_ge (Num 1) (sc (computeScores e s)))
        \<and> is_integer (completion (computeScores e s))
        \<and> js_ge (completion (computeScores e s)) (Num 0)
        \<and> js_ge (Num 100) (completion (computeScores e s)))"
proof (intro conjI impI)
  show "\<forall>(m, t, sc) \<in> set dimensions.
       sc (computeScores e s) \<noteq> NaN \<and> \<not> js_lt (Num 1) (sc (computeScores e s))"
    using score_not_NaN_PInf score_upper
    by (auto simp add: computeScores_dimension)
next
  show "completion (computeScores e s)
       = Math_round (js_mul
           (js_div (js_add (js_add (js_add (dsaScore (computeScores e s))
                                           (aptScore (computeScores e s)))
                                   (webScore (computeScores e s)))
                           (engScore (computeScores e s)))
                   (Num 4))
           (Num 100))"
    by (rule computeScores_completion)
next
  assume h: "\<forall>(m, t, sc) \<in> set dimensions. \<not> signbit (m e) \<and> \<not> signbit (t s)"
  show "\<forall>(m, t, sc) \<in> set dimensions.
      js_ge (sc (computeScores e s)) (Num 0) \<and> js_ge (Num 1) (sc (computeScores e s))"
  proof (intro ballI, clarify)
    fix m t sc
    assume d: "(m, t, sc) \<in> set dimensions"
    with h have "\<not> signbit (m e)" and "\<not> signbit (t s)" by auto
    from score_unit [OF this] obtain q
      where "sc (computeScores e s) = Num q" and "0 \<le> q" and "q \<le> 1"
      by (auto simp add: computeScores_dimension [OF d])
    then show "js_ge (sc (computeScores e s)) (Num 0) \<and> js_ge (Num 1) (sc (computeScores e s))"
      by (auto simp add: js_ge_def js_lt_def js_eq_def)
  qed
  from completion_integer [OF h] obtain n
    where n: "completion (computeScores e s) = Num (of_int n)" "0 \<le> n" "n \<le> 100"
    by auto
  show "is_integer (completion (computeScores e s))" by (simp add: n)
  show "js_ge (completion (computeScores e s)) (Num 0)"
    using n(2) by (auto simp add: n(1) js_ge_def js_lt_def js_eq_def)
  show "js_ge (Num 100) (completion (computeScores e s))"
    using n(3) by (auto simp add: n(1) js_ge_def js_lt_def js_eq_def)
qed

theorem scores_and_completion_range_witness:
  "\<not> signbit (dsaQs dayDsaOnly) \<and> \<not> signbit (dsaQTarget defaultSettings)
   \<and> \<not> signbit (aptQs dayDsaOnly) \<and> \<not> signbit (aptQTarget defaultSettings)
   \<and> \<not> signbit (webMin dayDsaOnly) \<and> \<not> signbit (webMinTarget defaultSettings)
   \<and> \<not> signbit (engMin dayDsaOnly) \<and> \<not> signbit (engMinTarget defaultSettings)
   \<and> js_ge (dsaScore (computeScores dayDsaOnly defaultSettings)) (Num 0)
   \<and> js_ge (Num 1) (dsaScore (computeScores dayDsaOnly defaultSettings))
   \<and> js_ge (aptScore (computeScores dayDsaOnly defaultSettings)) (Num 0)
   \<and> js_ge (Num 1) (aptScore (computeScores dayDsaOnly defaultSettings))
   \<and> js_ge (webScore (computeScores dayDsaOnly defaultSettings)) (Num 0)
   \<and> js_ge (Num 1) (webScore (computeScores dayDsaOnly defaultSettings))
   \<and> js_ge (engScore (computeScores dayDsaOnly defaultSettings)) (Num 0)
   \<and> js_ge (Num 1) (engScore (computeScores dayDsaOnly defaultSettings))
   \<and> is_integer (completion (computeScores dayDsaOnly defaultSettings))
   \<and> js_ge (completion (computeScores dayDsaOnly defaultSettings)) (Num 0)
   \<and> js_ge (Num 100) (completion (computeScores dayDsaOnly defaultSettings))
   \<and> completion (computeScores dayDsaOnly defaultSettings) = Num 25"
proof -
  have h: "\<forall>(m, t, sc) \<in> set dimensions.
      \<not> signbit (m dayDsaOnly) \<and> \<not> signbit (t defaultSettings)"
    by (simp add: dimensions_def dayDsaOnly_def sampleEntry_def defaultSettings_def)
  have c: "completion (computeScores dayDsaOnly defaultSettings) = Num 25"
    by (simp add: dayDsaOnly_def example_one_met)
  from scores_and_completion_range [of dayDsaOnly defaultSettings] h
  have "(\<forall>(m, t, sc) \<in> set dimensions.
            js_ge (sc (computeScores dayDsaOnly defaultSettings)) (Num 0)
            \<and> js_ge (Num 1) (sc (computeScores dayDsaOnly defaultSettings)))
        \<and> is_integer (completion (computeScores dayDsaOnly defaultSettings))
        \<and> js_ge (completion (computeScores dayDsaOnly defaultSettings)) (Num 0)
        \<and> js_ge (Num 100) (completion (computeScores dayDsaOnly defaultSettings))"
    by blast
  with h c show ?thesis by (simp add: dimensions_def)
qed

theorem scores_and_completion_range_counterexample:
  "dsaScore (computeScores dayNegative defaultSettings) = Num (- 1)
   \<and> \<not> js_ge (Num (- 1)) (Num 0)
   \<and> completion (computeScores dayNegative defaultSettings) = Num (- 25)
   \<and> \<not> js_ge (Num (- 25)) (Num 0)"
  using example_negative [of "''2024-01-05''"]
  by (simp add: dayNegative_def js_ge_def js_lt_def js_eq_def is_zero_def)




section \<open>Properties of the aggregation\<close>

subsection \<open>Streaks\<close>

lemma streaks_loop_current:
  "current (streaks_loop cur bst es)
     = (if \<forall>e \<in> set es. js_eq (completion (scores e)) (Num 100) then cur + length es
        else length (takeWhile (\<lambda>e. js_eq (completion (scores e)) (Num 100)) (rev es)))"
proof (induction es arbitrary: cur bst)
  case Nil
  show ?case by simp
next
  case (Cons x es)
  show ?case
  proof (cases "\<forall>e \<in> set es. js_eq (completion (scores e)) (Num 100)")
    case True
    then have "takeWhile (\<lambda>e. js_eq (completion (scores e)) (Num 100)) (rev es @ [x])
        = rev es @ takeWhile (\<lambda>e. js_eq (completion (scores e)) (Num 100)) [x]"
      by (intro takeWhile_append2) simp
    with True show ?thesis
      by (simp add: Cons.IH)
  next
    case False
    then have "\<exists>e \<in> set (rev es). \<not> js_eq (completion (scores e)) (Num 100)" by simp
    then have "takeWhile (\<lambda>e. js_eq (completion (scores e)) (Num 100)) (rev es @ [x])
        = takeWhile (\<lambda>e. js_eq (completion (scores e)) (Num 100)) (rev es)"
      by (auto simp add: takeWhile_append1)
    with False show ?thesis by (auto simp add: Cons.IH)
  qed
qed

lemma prefix_replicate_Cons:
  "prefix (replicate n True) (b # bs)
     = (n = 0 \<or> (b \<and> (\<exists>k. n = Suc k \<and> prefix (replicate k True) bs)))"
  by (cases n) auto

lemma streaks_loop_best:
  assumes "cur \<le> bst"
  shows "(n \<le> best (streaks_loop cur bst es))
     = (n \<le> bst
        \<or> sublist (replicate n True) (map (\<lambda>e. js_eq (completion (scores e)) (Num 100)) es)
        \<or> (\<exists>k. n \<le> cur + k
               \<and> prefix (replicate k True)
                    (map (\<lambda>e. js_eq (completion (scores e)) (Num 100)) es)))"
  using assms
proof (induction es arbitrary: cur bst)
  case Nil
  then show ?case by auto
next
  case (Cons x es)
  let ?bs = "map (\<lambda>e. js_eq (completion (scores e)) (Num 100)) es"
  show ?case
  proof (cases "js_eq (completion (scores x)) (Num 100)")
    case True
    have le: "cur + 1 \<le> max bst (cur + 1)" by simp
    have "(n \<le> best (streaks_loop cur bst (x # es)))
        = (n \<le> max bst (cur + 1) \<or> sublist (replicate n True) ?bs
           \<or> (\<exists>k. n \<le> cur + 1 + k \<and> prefix (replicate k True) ?bs))"
      using True Cons.IH [OF le] by simp
    also have "\<dots> = (n \<le> bst \<or> sublist (replicate n True) ?bs
           \<or> (\<exists>k. n \<le> cur + 1 + k \<and> prefix (replicate k True) ?bs))"
    proof -
      have "\<exists>k. n \<le> cur + 1 + k \<and> prefix (replicate k True) ?bs" if "n \<le> cur + 1"
        using that by (intro exI [of _ 0]) simp
      then show ?thesis by (auto simp add: le_max_iff_disj)
    qed
    also have "\<dots> = (n \<le> bst \<or> sublist (replicate n True) (True # ?bs)
           \<or> (\<exists>k. n \<le> cur + k \<and> prefix (replicate k True) (True # ?bs)))"
    proof -
      have a: "(\<exists>k. n \<le> cur + k \<and> prefix (replicate k True) (True # ?bs))
          = (n \<le> cur \<or> (\<exists>k. n \<le> cur + 1 + k \<and> prefix (replicate k True) ?bs))"
      proof
        assume "\<exists>k. n \<le> cur + k \<and> prefix (replicate k True) (True # ?bs)"
        then show "n \<le> cur \<or> (\<exists>k. n \<le> cur + 1 + k \<and> prefix (replicate k True) ?bs)"
          by (auto simp add: prefix_replicate_Cons)
      next
        assume "n \<le> cur \<or> (\<exists>k. n \<le> cur + 1 + k \<and> prefix (replicate k True) ?bs)"
        then show "\<exists>k. n \<le> cur + k \<and> prefix (replicate k True) (True # ?bs)"
        proof
          assume "n \<le> cur"
          then show ?thesis by (intro exI [of _ 0]) simp
        next
          assume "\<exists>k. n \<le> cur + 1 + k \<and> prefix (replicate k True) ?bs"
          then obtain k where "n \<le> cur + 1 + k" and "prefix (replicate k True) ?bs"
            by blast
          then show ?thesis by (intro exI [of _ "Suc k"]) simp
        qed
      qed
      have b: "prefix (replicate n True) (True # ?bs)
          \<Longrightarrow> n = 0 \<or> (\<exists>k. n \<le> cur + 1 + k \<and> prefix (replicate k True) ?bs)"
        by (auto simp add: prefix_replicate_Cons)
      from Cons.prems b show ?thesis
        unfolding a sublist_Cons_right by auto
    qed
    finally show ?thesis using True by simp
  next
    case False
    have "(n \<le> best (streaks_loop cur bst (x # es)))
        = (n \<le> bst \<or> sublist (replicate n True) ?bs
           \<or> (\<exists>k. n \<le> 0 + k \<and> prefix (replicate k True) ?bs))"
      using False Cons.IH [of 0 bst] by simp
    also have "\<dots> = (n \<le> bst \<or> sublist (replicate n True) ?bs)"
    proof -
      have "sublist (replicate n True) ?bs"
        if "n \<le> k" and "prefix (replicate k True) ?bs" for k
      proof -
        from that(1) have "prefix (replicate n True) (replicate k True)"
          by (metis le_add_diff_inverse prefixI replicate_add)
        from this that(2) have "prefix (replicate n True) ?bs" by (rule prefix_order.trans)
        then show ?thesis by (rule prefix_imp_sublist)
      qed
      then show ?thesis by auto
    qed
    also have "\<dots> = (n \<le> bst \<or> sublist (replicate n True) (False # ?bs)
           \<or> (\<exists>k. n \<le> cur + k \<and> prefix (replicate k True) (False # ?bs)))"
      using Cons.prems
      by (auto simp add: sublist_Cons_right prefix_replicate_Cons)
    finally show ?thesis using False by simp
  qed
qed

lemma sublist_run_iff:
  "sublist (replicate n True) bs = (\<exists>i. i + n \<le> length bs \<and> (\<forall>j < n. bs ! (i + j)))"
proof
  assume "sublist (replicate n True) bs"
  then obtain ps ss where bs: "bs = ps @ replicate n True @ ss"
    by (auto simp add: sublist_def)
  have "\<forall>j < n. bs ! (length ps + j)"
    by (simp add: bs nth_append)
  moreover have "length ps + n \<le> length bs" by (simp add: bs)
  ultimately show "\<exists>i. i + n \<le> length bs \<and> (\<forall>j < n. bs ! (i + j))" by blast
next
  assume "\<exists>i. i + n \<le> length bs \<and> (\<forall>j < n. bs ! (i + j))"
  then obtain i where i: "i + n \<le> length bs" and run: "\<forall>j < n. bs ! (i + j)" by blast
  have "take n (drop i bs) = replicate n True"
    using i run by (intro nth_equalityI) simp_all
  then have "bs = take i bs @ replicate n True @ drop n (drop i bs)"
    by (metis append_take_drop_id)
  then show "sublist (replicate n True) bs"
    unfolding sublist_def by blast
qed


text \<open>
  C6. Over any sequence of graded records, \<open>best\<close> is the length of the longest run of
  consecutive records with completion 100: there is such a run of that length and none is
  longer. \<open>current\<close> is the length of the run of such records that ends at the last
  record; it is 0 when the last record's completion is not 100.
\<close>

theorem streaks_are_runs:
  "(\<exists>i. i + best (streaks enr) \<le> length enr
        \<and> (\<forall>j < best (streaks enr). js_eq (completion (scores (enr ! (i + j)))) (Num 100)))
   \<and> (\<forall>i n. i + n \<le> length enr
          \<and> (\<forall>j < n. js_eq (completion (scores (enr ! (i + j)))) (Num 100))
        \<longrightarrow> n \<le> best (streaks enr))
   \<and> current (streaks enr)
       = length (takeWhile (\<lambda>e. js_eq (completion (scores e)) (Num 100)) (rev enr))
   \<and> (enr \<noteq> [] \<and> \<not> js_eq (completion (scores (last enr))) (Num 100)
        \<longrightarrow> current (streaks enr) = 0)"
proof -
  let ?P = "\<lambda>e. js_eq (completion (scores e)) (Num 100)"
  have run: "(n \<le> best (streaks enr))
      = (\<exists>i. i + n \<le> length enr \<and> (\<forall>j < n. ?P (enr ! (i + j))))" for n
  proof -
    have "(n \<le> best (streaks enr))
        = (n \<le> 0 \<or> sublist (replicate n True) (map ?P enr)
           \<or> (\<exists>k. n \<le> 0 + k \<and> prefix (replicate k True) (map ?P enr)))"
      unfolding streaks_def by (rule streaks_loop_best) simp
    also have "\<dots> = sublist (replicate n True) (map ?P enr)"
    proof -
      have "sublist (replicate n True) (map ?P enr)"
        if "n \<le> k" and "prefix (replicate k True) (map ?P enr)" for k
      proof -
        from that(1) have "prefix (replicate n True) (replicate k True)"
          by (metis le_add_diff_inverse prefixI replicate_add)
        from this that(2) have "prefix (replicate n True) (map ?P enr)"
          by (rule prefix_order.trans)
        then show ?thesis by (rule prefix_imp_sublist)
      qed
      then show ?thesis by auto
    qed
    also have "\<dots> = (\<exists>i. i + n \<le> length (map ?P enr)
        \<and> (\<forall>j < n. map ?P enr ! (i + j)))"
      by (rule sublist_run_iff)
    also have "\<dots> = (\<exists>i. i + n \<le> length enr \<and> (\<forall>j < n. ?P (enr ! (i + j))))"
      by (intro ex_cong1) auto
    finally show ?thesis .
  qed
  have c: "current (streaks enr) = length (takeWhile ?P (rev enr))"
    unfolding streaks_def
    by (simp add: streaks_loop_current takeWhile_eq_all_conv [THEN iffD2])
  have z: "current (streaks enr) = 0" if "enr \<noteq> []" and "\<not> ?P (last enr)"
  proof -
    from that have "takeWhile ?P (rev enr) = []"
      by (simp add: takeWhile_eq_Nil_iff hd_rev)
    then show ?thesis by (simp add: c)
  qed
  from run [of "best (streaks enr)"] have "\<exists>i. i + best (streaks enr) \<le> length enr
        \<and> (\<forall>j < best (streaks enr). ?P (enr ! (i + j)))"
    by simp
  moreover from run have "\<forall>i n. i + n \<le> length enr \<and> (\<forall>j < n. ?P (enr ! (i + j)))
        \<longrightarrow> n \<le> best (streaks enr)"
    by blast
  ultimately show ?thesis using c z by blast
qed

lemma sample_enriched:
  "enriched isoCompare sampleEntries defaultSettings
     = map (\<lambda>e. \<lparr> entry = e, scores = computeScores e defaultSettings \<rparr>)
         [sampleEntry ''2024-01-01'' (Num 3) (Num 20) (Num 90) (Num 30),
          sampleEntry ''2024-01-02'' (Num 3) (Num 20) (Num 90) (Num 30),
          sampleEntry ''2024-01-03'' (Num 0) (Num 0) (Num 0) (Num 0),
          sampleEntry ''2024-01-04'' (Num 3) (Num 20) (Num 90) (Num 30)]"
  by (simp add: enriched_def sampleEntries_def jsSort_def sampleEntry_def)

lemma sample_streaks:
  "streaks (enriched isoCompare sampleEntries defaultSettings) = \<lparr> current = 1, best = 2 \<rparr>"
  by (simp add: sample_enriched streaks_def example_all_met example_all_zero js_eq_def
        is_zero_def)

theorem streaks_are_runs_witness:
  "0 + 2 \<le> length (enriched isoCompare sampleEntries defaultSettings)
   \<and> js_eq (completion (scores
          (enriched isoCompare sampleEntries defaultSettings ! (0 + 0)))) (Num 100)
   \<and> js_eq (completion (scores
          (enriched isoCompare sampleEntries defaultSettings ! (0 + 1)))) (Num 100)
   \<and> 2 \<le> best (streaks (enriched isoCompare sampleEntries defaultSettings))
   \<and> best (streaks (enriched isoCompare sampleEntries defaultSettings)) = 2
   \<and> current (streaks (enriched isoCompare sampleEntries defaultSettings)) = 1
   \<and> enriched isoCompare (take 1 sampleEntries) defaultSettings \<noteq> []
   \<and> \<not> js_eq (completion (scores
          (last (enriched isoCompare (take 1 sampleEntries) defaultSettings)))) (Num 100)
   \<and> current (streaks (enriched isoCompare (take 1 sampleEntries) defaultSettings)) = 0"
proof -
  let ?enr = "enriched isoCompare sampleEntries defaultSettings"
  let ?one = "enriched isoCompare (take 1 sampleEntries) defaultSettings"
  have h: "0 + 2 \<le> length ?enr
      \<and> (\<forall>j < 2. js_eq (completion (scores (?enr ! (0 + j)))) (Num 100))"
    by (auto simp add: sample_enriched example_all_met js_eq_def less_2_cases_iff)
  have v: "best (streaks ?enr) = 2" "current (streaks ?enr) = 1"
    by (simp_all add: sample_streaks)
  have l: "?one \<noteq> [] \<and> \<not> js_eq (completion (scores (last ?one))) (Num 100)"
    by (simp add: enriched_def sampleEntries_def jsSort_def example_all_zero js_eq_def
          is_zero_def)
  from streaks_are_runs [of ?enr] h have "2 \<le> best (streaks ?enr)" by blast
  moreover from streaks_are_runs [of ?one] l have "current (streaks ?one) = 0" by blast
  moreover from h have "js_eq (completion (scores (?enr ! (0 + 0)))) (Num 100)"
    and "js_eq (completion (scores (?enr ! (0 + 1)))) (Num 100)"
    by simp_all
  ultimately show ?thesis using h v l by blast
qed

subsection \<open>The empty history\<close>

text \<open>
  C8. For any settings and any collation, the summary of no entries has every running
  total, every outcome count and the total fine equal to 0, consistency 0 and an empty
  completion series; the time split and the outcome distribution hold zeros and both
  streaks are 0. Every function involved is total, so nothing is raised.
\<close>

theorem empty_summary:
  "enriched localeCompare [] settings = []
   \<and> totals (enriched localeCompare [] settings)
       = \<lparr> dsa = Num 0, apt = Num 0, web = Num 0, eng = Num 0, rewards = Num 0,
           fines = Num 0, missed = Num 0, totalFineAmount = Num 0, consistency = Num 0 \<rparr>
   \<and> completionSeries (enriched localeCompare [] settings) = []
   \<and> timeSplit (enriched localeCompare [] settings)
       = [(''DSA Minutes'', Num 0), (''Aptitude Minutes'', Num 0),
          (''Web Dev Minutes'', Num 0), (''English Minutes'', Num 0)]
   \<and> rfSeries (totals (enriched localeCompare [] settings))
       = [(''Reward'', Num 0), (''Fine'', Num 0), (''Missed'', Num 0)]
   \<and> streaks (enriched localeCompare [] settings) = \<lparr> current = 0, best = 0 \<rparr>"
  by (simp add: enriched_def jsSort_def totals_def js_length_def truthy_def is_zero_def
        completionSeries_def timeSplit_def rfSeries_def streaks_def)

subsection \<open>Consistency\<close>

lemma length_insertBy: "length (insertBy cmp x ys) = Suc (length ys)"
  by (induction ys) simp_all

lemma filter_insertBy:
  "length (filter Q (insertBy cmp x ys)) = length (filter Q (x # ys))"
  by (induction ys) auto

lemma foldl_insertBy_length:
  "length (foldl (\<lambda>acc x. insertBy cmp x acc) acc xs) = length acc + length xs"
  by (induction xs arbitrary: acc) (simp_all add: length_insertBy)

lemma foldl_insertBy_filter:
  "length (filter Q (foldl (\<lambda>acc x. insertBy cmp x acc) acc xs))
     = length (filter Q acc) + length (filter Q xs)"
  by (induction xs arbitrary: acc) (simp_all add: filter_insertBy)

lemma length_jsSort: "length (jsSort cmp xs) = length xs"
  by (simp add: jsSort_def foldl_insertBy_length)

lemma filter_jsSort: "length (filter Q (jsSort cmp xs)) = length (filter Q xs)"
  by (simp add: jsSort_def foldl_insertBy_filter)

lemma length_enriched: "length (enriched localeCompare entries settings) = length entries"
  by (simp add: enriched_def length_jsSort)

lemma perfect_enriched:
  "length (filter (\<lambda>e. js_eq (completion (scores e)) (Num 100))
             (enriched localeCompare entries settings))
     = length (filter (\<lambda>e. js_eq (completion (computeScores e settings)) (Num 100)) entries)"
  by (simp add: enriched_def filter_map o_def filter_jsSort)

lemma consistency_totals:
  "consistency (totals enr)
     = (if enr = [] then Num 0
        else Math_round (js_mul
               (js_div
                  (Num (of_nat (length
                     (filter (\<lambda>e. js_eq (completion (scores e)) (Num 100)) enr))))
                  (Num (of_nat (length enr))))
               (Num 100)))"
  by (simp add: totals_def js_length_def truthy_def is_zero_def Let_def)


lemma powi_neg_numeral_bounds:
  "(2::rat) powi (- 1022) \<le> 1 / 2 ^ 33"
proof -
  have "(2::rat) powi (- 1022) \<le> 2 powi (- 33)" by (subst powi_le_iff) simp
  also have "\<dots> = 1 / 2 ^ 33" by (simp add: power_int_minus_divide)
  finally show ?thesis .
qed

lemma ratio_product:
  fixes c n :: nat
  assumes "0 < c" and "c \<le> n" and "n < 2 ^ 32"
  shows "\<exists>v. js_mul (js_div (Num (of_nat c)) (Num (of_nat n))) (Num 100) = Num v \<and> 0 \<le> v
     \<and> \<bar>v - 100 * of_nat c / of_nat n\<bar> \<le> 200 / 2 ^ 53"
proof -
  define q :: rat where "q = of_nat c / of_nat n"
  define q1 where "q1 = round64 q"
  define p where "p = q1 * 100"
  define v where "v = round64 p"
  from assms have npos: "0 < (of_nat n :: rat)" and cpos: "0 < (of_nat c :: rat)"
    by simp_all
  have qpos: "0 < q" using npos cpos by (simp add: q_def)
  have qle: "q \<le> 1" using assms(2) npos by (simp add: q_def)
  have "(of_nat n :: rat) \<le> 2 ^ 32"
  proof -
    from assms(3) have "(of_nat n :: rat) < of_nat (2 ^ 32)" by (simp only: of_nat_less_iff)
    then show ?thesis by simp
  qed
  moreover have "1 \<le> (of_nat c :: rat)" using assms(1) by simp
  ultimately have "1 * of_nat n \<le> of_nat c * (2 ^ 32 :: rat)"
    by (intro mult_mono) simp_all
  then have qlo: "1 / 2 ^ 32 \<le> q"
    using npos by (simp add: q_def field_simps)
  have n1: "2 powi (- 1022) \<le> q"
    using powi_neg_numeral_bounds qlo by simp
  from round64_err [OF n1] have e1: "\<bar>q1 - q\<bar> \<le> q / 2 ^ 53" by (simp add: q1_def)
  from fl_bound [of q 1] qpos qle
  have f1: "fl False q = Num q1" and q1nn: "0 \<le> q1" and q1le: "q1 \<le> 1"
    by (simp_all add: q1_def round64_1)
  have d: "js_div (Num (of_nat c)) (Num (of_nat n)) = Num q1"
    using npos by (simp add: js_div_Num f1 [unfolded q_def])
  from q1nn q1le have pnn: "0 \<le> p" and ple: "p \<le> 100" by (simp_all add: p_def)
  from fl_bound [OF pnn ple] have f2: "fl False p = Num v" and vnn: "0 \<le> v"
    by (simp_all add: v_def round64_100)
  have m: "js_mul (Num q1) (Num 100) = Num v"
    using q1nn by (simp add: js_mul_Num f2 [unfolded p_def])
  from e1 have "q - q / 2 ^ 53 \<le> q1" by linarith
  moreover have "q / 2 \<le> q - q / 2 ^ 53" using qpos by simp
  ultimately have "q / 2 \<le> q1" by simp
  with qlo have "1 / 2 ^ 33 \<le> q1" by simp
  moreover have "q1 \<le> p" using q1nn by (simp add: p_def)
  ultimately have n2: "2 powi (- 1022) \<le> p"
    using powi_neg_numeral_bounds by simp
  from round64_err [OF n2] have "\<bar>v - p\<bar> \<le> p / 2 ^ 53" by (simp add: v_def)
  also have "\<dots> \<le> 100 / 2 ^ 53" using ple by (simp add: divide_right_mono)
  finally have e2: "\<bar>v - p\<bar> \<le> 100 / 2 ^ 53" .
  have "\<bar>p - 100 * q\<bar> = 100 * \<bar>q1 - q\<bar>" by (simp add: p_def abs_if)
  also have "\<dots> \<le> 100 * (q / 2 ^ 53)" using e1 by simp
  also have "\<dots> \<le> 100 / 2 ^ 53" using qle by simp
  finally have e3: "\<bar>p - 100 * q\<bar> \<le> 100 / 2 ^ 53" .
  have "\<bar>v - 100 * q\<bar> \<le> \<bar>v - p\<bar> + \<bar>p - 100 * q\<bar>" by simp
  with e2 e3 have "\<bar>v - 100 * q\<bar> \<le> 200 / 2 ^ 53" by simp
  then have "\<bar>v - 100 * of_nat c / of_nat n\<bar> \<le> 200 / 2 ^ 53" by (simp add: q_def)
  with d m vnn show ?thesis by auto
qed

lemma round_half_stable:
  fixes v :: rat and c n :: nat
  assumes "0 < n" and "n < 2 ^ 32"
    and "\<bar>v - 100 * of_nat c / of_nat n\<bar> \<le> 200 / 2 ^ 53"
  shows "\<lfloor>v + 1 / 2\<rfloor> = \<lfloor>100 * of_nat c / of_nat n + 1 / 2 :: rat\<rfloor>
     \<or> (\<lfloor>v + 1 / 2\<rfloor> = \<lfloor>100 * of_nat c / of_nat n + 1 / 2 :: rat\<rfloor> - 1
        \<and> of_int \<lfloor>100 * of_nat c / of_nat n + 1 / 2 :: rat\<rfloor>
            = 100 * of_nat c / of_nat n + (1 / 2 :: rat))"
proof -
  define y :: rat where "y = 100 * of_nat c / of_nat n + 1 / 2"
  define K where "K = \<lfloor>y\<rfloor>"
  define d :: rat where "d = 200 / 2 ^ 53"
  have Kle: "of_int K \<le> y" and Kgt: "y < of_int K + 1"
    unfolding K_def by linarith+
  have "100 * of_nat c / of_nat n = y - 1 / 2" by (simp add: y_def)
  with assms(3) have "\<bar>v - (y - 1 / 2)\<bar> \<le> d" unfolding d_def by (simp only:)
  then have lo: "y - d \<le> v + 1 / 2" and hi: "v + 1 / 2 \<le> y + d"
    by linarith+
  have npos: "0 < (of_nat n :: rat)" using assms(1) by simp
  have "(of_nat n :: rat) < of_nat (2 ^ 32)" using assms(2) by (simp only: of_nat_less_iff)
  then have nle: "(of_nat n :: rat) < 2 ^ 32" by simp
  have d1: "d < 1" by (simp add: d_def)
  have dn: "d * (2 * of_nat n) < 1"
  proof -
    have "d * (2 * of_nat n) \<le> d * (2 * 2 ^ 32)"
      using nle by (intro mult_left_mono) (simp_all add: d_def)
    also have "\<dots> < 1" by (simp add: d_def)
    finally show ?thesis .
  qed
  show ?thesis
  proof (cases "of_int K = y")
    case True
    show ?thesis
    proof (cases "of_int K \<le> v + 1 / 2")
      case True
      moreover from hi \<open>of_int K = y\<close> d1 have "v + 1 / 2 < of_int K + 1" by simp
      ultimately have "\<lfloor>v + 1 / 2\<rfloor> = K" by (simp add: floor_eq_iff)
      then show ?thesis by (simp add: K_def y_def)
    next
      case False
      then have "v + 1 / 2 < of_int (K - 1) + 1" by simp
      moreover from lo \<open>of_int K = y\<close> d1 have "of_int (K - 1) \<le> v + 1 / 2" by simp
      ultimately have "\<lfloor>v + 1 / 2\<rfloor> = K - 1" by (simp only: floor_eq_iff)
      with \<open>of_int K = y\<close> show ?thesis by (simp add: K_def y_def)
    qed
  next
    case False
    with Kle have Klt: "of_int K < y" by simp
    define N :: int where "N = 200 * int c + int n"
    have yN: "y * (2 * of_nat n) = of_int N"
      using npos by (simp add: y_def N_def field_simps)
    from Klt npos have "of_int K * (2 * of_nat n) < y * (2 * of_nat n)"
      by (intro mult_strict_right_mono) simp_all
    then have "(of_int (K * (2 * int n)) :: rat) < of_int N" by (simp add: yN)
    then have "K * (2 * int n) < N" by (simp only: of_int_less_iff)
    then have "K * (2 * int n) + 1 \<le> N" by simp
    then have "(of_int (K * (2 * int n) + 1) :: rat) \<le> of_int N" by (simp only: of_int_le_iff)
    then have a: "of_int K * (2 * of_nat n) + 1 \<le> y * (2 * of_nat n)" by (simp add: yN)
    from Kgt npos have "y * (2 * of_nat n) < (of_int K + 1) * (2 * of_nat n)"
      by (intro mult_strict_right_mono) simp_all
    then have "(of_int N :: rat) < of_int ((K + 1) * (2 * int n))" by (simp add: yN)
    then have "N < (K + 1) * (2 * int n)" by (simp only: of_int_less_iff)
    then have "N + 1 \<le> (K + 1) * (2 * int n)" by simp
    then have "(of_int (N + 1) :: rat) \<le> of_int ((K + 1) * (2 * int n))"
      by (simp only: of_int_le_iff)
    then have b: "y * (2 * of_nat n) + 1 \<le> (of_int K + 1) * (2 * of_nat n)"
      by (simp add: yN)
    have "of_int K * (2 * of_nat n) < (y - d) * (2 * of_nat n)"
      using a dn by (simp add: algebra_simps)
    then have "of_int K < y - d" using npos by (simp add: mult_less_cancel_right)
    with lo have l: "of_int K \<le> v + 1 / 2" by simp
    have "(y + d) * (2 * of_nat n) < (of_int K + 1) * (2 * of_nat n)"
      using b dn by (simp add: algebra_simps)
    then have "y + d < of_int K + 1" using npos by (simp add: mult_less_cancel_right)
    with hi have u: "v + 1 / 2 < of_int K + 1" by simp
    from l u have "\<lfloor>v + 1 / 2\<rfloor> = K" by (simp add: floor_eq_iff)
    then show ?thesis by (simp add: K_def y_def)
  qed
qed

lemma consistency_enriched:
  "consistency (totals (enriched localeCompare entries settings))
     = (if entries = [] then Num 0
        else Math_round (js_mul
               (js_div (Num (of_nat (perfectDays settings entries)))
                       (Num (of_nat (length entries))))
               (Num 100)))"
proof -
  have "(enriched localeCompare entries settings = []) = (entries = [])"
    using length_enriched [of localeCompare entries settings] by (metis length_0_conv)
  then show ?thesis
    by (simp add: consistency_totals length_enriched perfect_enriched perfectDays_def)
qed

text \<open>
  C7 (as amended). Over an array of entries (fewer than \<open>2^32\<close> elements, as every
  array has), the consistency is \<open>Math.round\<close> of the binary64 value of
  \<open>(count / total) * 100\<close>, where the quotient is rounded before it is multiplied, and
  it is 0 when there are no records. It is an integer that equals
  \<open>round(100 * count / total)\<close>, except that where \<open>100 * count / total\<close> lies exactly
  half-way between two integers it may be the lower of the two.
\<close>

theorem consistency_value:
  assumes "length entries < 2 ^ 32"
  shows "(entries = [] \<longrightarrow>
            consistency (totals (enriched localeCompare entries settings)) = Num 0)
   \<and> (entries \<noteq> [] \<longrightarrow>
         consistency (totals (enriched localeCompare entries settings))
           = Math_round (js_mul
               (js_div (Num (of_nat (perfectDays settings entries)))
                       (Num (of_nat (length entries))))
               (Num 100)))
   \<and> (\<exists>k. consistency (totals (enriched localeCompare entries settings)) = Num (of_int k)
         \<and> (k = spec_consistency (perfectDays settings entries) (length entries)
            \<or> (k = spec_consistency (perfectDays settings entries) (length entries) - 1
               \<and> entries \<noteq> []
               \<and> of_int (spec_consistency (perfectDays settings entries) (length entries))
                   = 100 * rat_of_nat (perfectDays settings entries)
                       / rat_of_nat (length entries) + 1 / 2)))"
proof (intro conjI impI)
  assume "entries = []"
  then show "consistency (totals (enriched localeCompare entries settings)) = Num 0"
    by (simp add: consistency_enriched)
next
  assume "entries \<noteq> []"
  then show "consistency (totals (enriched localeCompare entries settings))
           = Math_round (js_mul
               (js_div (Num (of_nat (perfectDays settings entries)))
                       (Num (of_nat (length entries))))
               (Num 100))"
    by (simp add: consistency_enriched)
next
  define c where "c = perfectDays settings entries"
  define n where "n = length entries"
  have cn: "c \<le> n" by (simp add: c_def n_def perfectDays_def)
  have "\<exists>k. consistency (totals (enriched localeCompare entries settings)) = Num (of_int k)
         \<and> (k = spec_consistency c n
            \<or> (k = spec_consistency c n - 1 \<and> entries \<noteq> []
               \<and> of_int (spec_consistency c n) = 100 * rat_of_nat c / rat_of_nat n + 1 / 2))"
  proof (cases "entries = []")
    case True
    then have "consistency (totals (enriched localeCompare entries settings)) = Num (of_int 0)"
      by (simp add: consistency_enriched)
    moreover from True have "spec_consistency c n = 0"
      by (simp add: spec_consistency_def n_def)
    ultimately show ?thesis by metis
  next
    case False
    then have npos: "0 < n" by (simp add: n_def)
    have nlt: "n < 2 ^ 32" using assms by (simp add: n_def)
    have cons: "consistency (totals (enriched localeCompare entries settings))
        = Math_round (js_mul (js_div (Num (of_nat c)) (Num (of_nat n))) (Num 100))"
      using False by (simp add: consistency_enriched c_def n_def)
    have sp: "spec_consistency c n = \<lfloor>100 * rat_of_nat c / rat_of_nat n + 1 / 2\<rfloor>"
      using npos by (simp add: spec_consistency_def)
    show ?thesis
    proof (cases "c = 0")
      case True
      have "js_div (Num 0) (Num (of_nat n)) = Num 0"
        using npos by (simp add: js_div_Num fl_0)
      then have "consistency (totals (enriched localeCompare entries settings))
          = Num (of_int 0)"
        by (simp add: cons True js_mul_Num fl_0 Math_round_0)
      moreover have "spec_consistency c n = 0"
        using npos True by (simp add: spec_consistency_def floor_eq_iff)
      ultimately show ?thesis by metis
    next
      case False
      then have cpos: "0 < c" by simp
      from ratio_product [OF cpos cn nlt] obtain v
        where v: "js_mul (js_div (Num (of_nat c)) (Num (of_nat n))) (Num 100) = Num v"
          and vnn: "0 \<le> v"
          and err: "\<bar>v - 100 * of_nat c / of_nat n\<bar> \<le> 200 / 2 ^ 53"
        by blast
      have k: "consistency (totals (enriched localeCompare entries settings))
          = Num (of_int \<lfloor>v + 1 / 2\<rfloor>)"
        using vnn by (simp add: cons v Math_round_nonneg)
      from round_half_stable [OF npos nlt err] sp
      have "\<lfloor>v + 1 / 2\<rfloor> = spec_consistency c n
          \<or> (\<lfloor>v + 1 / 2\<rfloor> = spec_consistency c n - 1
             \<and> of_int (spec_consistency c n) = 100 * rat_of_nat c / rat_of_nat n + 1 / 2)"
        by simp
      with k \<open>entries \<noteq> []\<close> show ?thesis by blast
    qed
  qed
  then show "\<exists>k. consistency (totals (enriched localeCompare entries settings)) = Num (of_int k)
         \<and> (k = spec_consistency (perfectDays settings entries) (length entries)
            \<or> (k = spec_consistency (perfectDays settings entries) (length entries) - 1
               \<and> entries \<noteq> []
               \<and> of_int (spec_consistency (perfectDays settings entries) (length entries))
                   = 100 * rat_of_nat (perfectDays settings entries)
                       / rat_of_nat (length entries) + 1 / 2))"
    by (simp add: c_def n_def)
qed


lemma round64_23_40: "round64 (23 / 40) = 2589569785738035 / 4503599627370496"
  by code_simp

lemma round64_23_40_times_100:
  "round64 (64739244643450875 / 1125899906842624) = 8092405580431359 / 140737488355328"
  by code_simp

lemma product_23_40:
  "js_mul (js_div (Num 23) (Num 40)) (Num 100) = Num (8092405580431359 / 140737488355328)"
proof -
  have "js_div (Num 23) (Num 40) = fl False (23 / 40)" by (simp add: js_div_Num)
  also have "\<dots> = Num (2589569785738035 / 4503599627370496)"
    using fl_bound [of "23 / 40" 1] by (simp add: round64_1 round64_23_40)
  finally have d: "js_div (Num 23) (Num 40) = Num (2589569785738035 / 4503599627370496)" .
  have "js_mul (Num (2589569785738035 / 4503599627370496)) (Num 100)
      = fl False (64739244643450875 / 1125899906842624)"
    by (simp add: js_mul_Num)
  also have "\<dots> = Num (8092405580431359 / 140737488355328)"
    using fl_bound [of "64739244643450875 / 1125899906842624" 100]
    by (simp add: round64_100 round64_23_40_times_100)
  finally show ?thesis by (simp only: d)
qed

lemma forty_days_counts:
  shows "length fortyDays = 40" and "perfectDays defaultSettings fortyDays = 23"
proof -
  show "length fortyDays = 40" by (simp add: fortyDays_def)
  have a: "completion (computeScores dayAllMet defaultSettings) = Num 100"
    by (simp add: dayAllMet_def example_all_met)
  have z: "completion (computeScores dayNothing defaultSettings) = Num 0"
    by (rule all_zero_missed) (simp_all add: dayNothing_def sampleEntry_def is_zero_def)
  show "perfectDays defaultSettings fortyDays = 23"
    by (simp add: perfectDays_def fortyDays_def a z js_eq_def is_zero_def)
qed

theorem consistency_value_counterexample:
  "length fortyDays = 40 \<and> perfectDays defaultSettings fortyDays = 23
   \<and> consistency (totals (enriched isoCompare fortyDays defaultSettings)) = Num 57
   \<and> spec_consistency 23 40 = 58"
proof -
  have ne: "fortyDays \<noteq> []" by (simp add: fortyDays_def)
  have "\<lfloor>8092405580431359 / 140737488355328 + 1 / 2 :: rat\<rfloor> = 57"
    by (simp add: floor_eq_iff)
  then have "Math_round (Num (8092405580431359 / 140737488355328)) = Num 57"
    by (simp add: Math_round_nonneg)
  moreover have "consistency (totals (enriched isoCompare fortyDays defaultSettings))
      = Math_round (js_mul (js_div (Num (of_nat 23)) (Num (of_nat 40))) (Num 100))"
    using ne unfolding consistency_enriched forty_days_counts by simp
  ultimately
  have "consistency (totals (enriched isoCompare fortyDays defaultSettings)) = Num 57"
    by (simp add: product_23_40)
  moreover have "spec_consistency 23 40 = 58"
    by (simp add: spec_consistency_def floor_eq_iff)
  ultimately show ?thesis by (simp add: forty_days_counts)
qed

theorem consistency_value_witness:
  "length sampleEntries < 2 ^ 32 \<and> sampleEntries \<noteq> []
   \<and> perfectDays defaultSettings sampleEntries = 3 \<and> length sampleEntries = 4
   \<and> consistency (totals (enriched isoCompare sampleEntries defaultSettings)) = Num 75
   \<and> spec_consistency 3 4 = 75
   \<and> length ([] :: Entry list) < 2 ^ 32
   \<and> consistency (totals (enriched isoCompare [] defaultSettings)) = Num 0"
proof -
  have h: "length sampleEntries < 2 ^ 32" and ne: "sampleEntries \<noteq> []"
    and n: "length sampleEntries = 4"
    by (simp_all add: sampleEntries_def)
  have c: "perfectDays defaultSettings sampleEntries = 3"
    by (simp add: perfectDays_def sampleEntries_def example_all_met example_all_zero
          js_eq_def is_zero_def)
  from consistency_value [OF h, of isoCompare defaultSettings] ne
  have "consistency (totals (enriched isoCompare sampleEntries defaultSettings))
      = Math_round (js_mul
          (js_div (Num (of_nat (perfectDays defaultSettings sampleEntries)))
                  (Num (of_nat (length sampleEntries))))
          (Num 100))"
    by blast
  then have v: "consistency (totals (enriched isoCompare sampleEntries defaultSettings))
      = Num 75"
    by (simp add: c n js_div_Num js_mul_Num fl_three_quarters fl_75 Math_round_75)
  have e: "length ([] :: Entry list) < 2 ^ 32" by simp
  from consistency_value [OF e, of isoCompare defaultSettings]
  have z: "consistency (totals (enriched isoCompare [] defaultSettings)) = Num 0" by blast
  have "spec_consistency 3 4 = 75" by (simp add: spec_consistency_def floor_eq_iff)
  with h ne c n v e z show ?thesis by blast
qed

subsection \<open>A history of two days\<close>

lemma round64_of_nat:
  assumes "n < 2 ^ 53"
  shows "round64 (of_nat n) = of_nat n"
proof (cases "n = 0")
  case True
  then show ?thesis by (simp add: round64_0)
next
  case False
  then have pos: "0 < (of_nat n :: rat)" by simp
  define e where "e = expo (of_nat n)"
  from expo_bounds [OF pos] have lo: "2 powi e \<le> (of_nat n :: rat)"
    and hi: "(of_nat n :: rat) < 2 powi (e + 1)"
    by (simp_all add: e_def)
  from False have "(2::rat) powi 0 \<le> of_nat n" by simp
  from this hi have "(2::rat) powi 0 < 2 powi (e + 1)" by (rule le_less_trans)
  then have "0 < e + 1" by (simp only: powi_less_iff)
  then have e0: "0 \<le> e" by simp
  have "(of_nat n :: rat) < of_nat (2 ^ 53)" using assms by (simp only: of_nat_less_iff)
  then have "(of_nat n :: rat) < 2 powi 53" by simp
  with lo have "(2::rat) powi e < 2 powi 53" by (rule le_less_trans)
  then have "e < 53" by (simp only: powi_less_iff)
  then have e52: "e \<le> 52" by simp
  have "(2::rat) powi (e - 52) * 2 powi (52 - e) = 2 powi (e - 52 + (52 - e))"
    by (rule power_int_add [symmetric]) simp
  then have inv: "(2::rat) powi (e - 52) * 2 ^ nat (52 - e) = 1"
    using e52 by (simp add: power_int_nonneg_exp)
  have "of_int (int n * 2 ^ nat (52 - e)) * 2 powi (e - 52)
      = (of_nat n :: rat) * (2 powi (e - 52) * 2 ^ nat (52 - e))"
    by simp
  then have k: "(of_nat n :: rat) = of_int (int n * 2 ^ nat (52 - e)) * 2 powi (e - 52)"
    by (simp only: inv mult_1_right)
  from lo hi _ k show ?thesis
    by (rule round64_eq_self) (use e0 in simp)
qed

lemma fl_numeral:
  assumes "numeral k \<le> (1024::nat)"
  shows "fl False (numeral k) = Num (numeral k)"
proof -
  from assms have "(numeral k :: nat) < 2 ^ 53" by (rule le_less_trans) simp
  from round64_of_nat [OF this] have r: "round64 (numeral k) = numeral k" by simp
  have "(of_nat (numeral k) :: rat) \<le> of_nat 1024" using assms by (simp only: of_nat_le_iff)
  then have "(numeral k :: rat) \<le> 1024" by simp
  with r show ?thesis by (intro fl_exact) simp_all
qed

lemma round64_half: "round64 (1 / 2) = 1 / 2"
  by (rule round64_eq_self [where e = "- 1" and k = "2 ^ 52"]) simp_all

lemma fl_half: "fl False (1 / 2) = Num (1 / 2)"
  by (rule fl_exact [OF round64_half]) simp_all

lemma Math_round_50: "Math_round (Num 50) = Num 50"
  using Math_round_of_int [of 50] by simp

text \<open>The two-day history of the specification's example: a day that meets every
  target, then a day with one dimension met.\<close>

lemma example_two_days:
  "totals (enriched isoCompare [dayDsaOnly, dayAllMet] defaultSettings)
     = \<lparr> dsa = Num 6, apt = Num 20, web = Num 90, eng = Num 30, rewards = Num 1,
         fines = Num 1, missed = Num 0, totalFineAmount = Num 50, consistency = Num 50 \<rparr>"
  "streaks (enriched isoCompare [dayDsaOnly, dayAllMet] defaultSettings)
     = \<lparr> current = 0, best = 1 \<rparr>"
  "map (\<lambda>e. date (entry e)) (enriched isoCompare [dayDsaOnly, dayAllMet] defaultSettings)
     = [''2024-01-01'', ''2024-01-02'']"
proof -
  have e: "enriched isoCompare [dayDsaOnly, dayAllMet] defaultSettings
      = [\<lparr> entry = dayAllMet, scores = computeScores dayAllMet defaultSettings \<rparr>,
         \<lparr> entry = dayDsaOnly, scores = computeScores dayDsaOnly defaultSettings \<rparr>]"
    by (simp add: enriched_def jsSort_def dayDsaOnly_def dayAllMet_def sampleEntry_def)
  have a: "computeScores dayAllMet defaultSettings
      = \<lparr> dsaScore = Num 1, aptScore = Num 1, webScore = Num 1, engScore = Num 1,
          completion = Num 100, outcome = ''Reward'', fine = Num 0,
          autoNote = [Lit ''30 min entertainment''] \<rparr>"
    by (simp add: dayAllMet_def example_all_met)
  have d: "computeScores dayDsaOnly defaultSettings
      = \<lparr> dsaScore = Num 1, aptScore = Num 0, webScore = Num 0, engScore = Num 0,
          completion = Num 25, outcome = ''Fine'', fine = Num 50,
          autoNote = [Lit (''Fine '' @ rupee), Interp (Num 50)] \<rparr>"
    by (simp add: dayDsaOnly_def example_one_met)
  show "totals (enriched isoCompare [dayDsaOnly, dayAllMet] defaultSettings)
     = \<lparr> dsa = Num 6, apt = Num 20, web = Num 90, eng = Num 30, rewards = Num 1,
         fines = Num 1, missed = Num 0, totalFineAmount = Num 50, consistency = Num 50 \<rparr>"
    unfolding e a d
    by (simp add: totals_def js_length_def truthy_def is_zero_def js_eq_def dayAllMet_def
          dayDsaOnly_def sampleEntry_def js_add_Num js_div_Num js_mul_Num fl_numeral fl_1
          fl_half Math_round_50)
  show "streaks (enriched isoCompare [dayDsaOnly, dayAllMet] defaultSettings)
     = \<lparr> current = 0, best = 1 \<rparr>"
    unfolding e a d by (simp add: streaks_def js_eq_def is_zero_def)
  show "map (\<lambda>e. date (entry e)) (enriched isoCompare [dayDsaOnly, dayAllMet] defaultSettings)
     = [''2024-01-01'', ''2024-01-02'']"
    unfolding e by (simp add: dayAllMet_def dayDsaOnly_def sampleEntry_def)
qed

section \<open>Properties of the store\<close>

subsection \<open>Reading a store that has grown\<close>

lemma prefix_take: "prefix h h' \<Longrightarrow> take (length h) h' = h"
  by (auto simp add: prefix_def)

lemma prefix_update:
  assumes "prefix h0 h" and "length h0 \<le> c"
  shows "prefix h0 (h[c := v])"
proof -
  from assms(1) obtain ext where "h = h0 @ ext" by (auto simp add: prefix_def)
  with assms(2) have "h[c := v] = h0 @ ext[c - length h0 := v]"
    by (simp add: list_update_append)
  then show ?thesis by simp
qed

lemma lookup_prefix: "prefix h h' \<Longrightarrow> lookup h a = Some c \<Longrightarrow> lookup h' a = Some c"
  by (auto simp add: prefix_def lookup_def nth_append split: if_splits)

lemma get_entry_prefix:
  "prefix h h' \<Longrightarrow> get_entry h a = Some v \<Longrightarrow> get_entry h' a = Some v"
  by (auto simp add: get_entry_def split: option.splits cell.splits dest: lookup_prefix)

lemma get_settings_prefix:
  "prefix h h' \<Longrightarrow> get_settings h a = Some v \<Longrightarrow> get_settings h' a = Some v"
  by (auto simp add: get_settings_def split: option.splits cell.splits dest: lookup_prefix)

lemma get_scores_prefix:
  "prefix h h' \<Longrightarrow> get_scores h a = Some v \<Longrightarrow> get_scores h' a = Some v"
  by (auto simp add: get_scores_def split: option.splits cell.splits dest: lookup_prefix)

lemma get_enriched_prefix:
  "prefix h h' \<Longrightarrow> get_enriched h a = Some v \<Longrightarrow> get_enriched h' a = Some v"
  by (auto simp add: get_enriched_def split: option.splits cell.splits dest: lookup_prefix)

lemma get_totals_prefix:
  "prefix h h' \<Longrightarrow> get_totals h a = Some v \<Longrightarrow> get_totals h' a = Some v"
  by (auto simp add: get_totals_def split: option.splits cell.splits dest: lookup_prefix)

lemma get_streaks_prefix:
  "prefix h h' \<Longrightarrow> get_streaks h a = Some v \<Longrightarrow> get_streaks h' a = Some v"
  by (auto simp add: get_streaks_def split: option.splits cell.splits dest: lookup_prefix)

lemma get_array_prefix:
  "prefix h h' \<Longrightarrow> get_array h a = Some v \<Longrightarrow> get_array h' a = Some v"
  by (auto simp add: get_array_def split: option.splits cell.splits dest: lookup_prefix)

lemma lookup_last: "lookup (h @ [c]) (length h) = Some c"
  by (simp add: lookup_def)

lemma get_Some_bound:
  "get_entry h a = Some e \<Longrightarrow> a < length h"
  "get_enriched h a = Some en \<Longrightarrow> a < length h"
  "get_array h a = Some xs \<Longrightarrow> a < length h"
  "get_settings h a = Some sv \<Longrightarrow> a < length h"
  by (auto simp add: get_entry_def get_enriched_def get_array_def get_settings_def lookup_def
        split: if_splits)

lemma read_list_all2:
  "read_list g h xs = Some vs \<Longrightarrow> list_all2 (\<lambda>x v. g h x = Some v) xs vs"
  by (induction xs arbitrary: vs) (auto split: option.splits)

lemma all2_read_list:
  "list_all2 (\<lambda>x v. g h x = Some v) xs vs \<Longrightarrow> read_list g h xs = Some vs"
  by (induction xs vs rule: list_all2_induct) simp_all

lemma read_list_iff:
  "(read_list g h xs = Some vs) = list_all2 (\<lambda>x v. g h x = Some v) xs vs"
  using read_list_all2 all2_read_list by blast

lemma read_list_mono:
  assumes "\<And>x v. g h x = Some v \<Longrightarrow> g h' x = Some v"
    and "read_list g h xs = Some vs"
  shows "read_list g h' xs = Some vs"
  using assms(2) unfolding read_list_iff
  by (rule list_all2_mono) (rule assms(1))

lemma read_entries_prefix:
  assumes "prefix h h'" and "read_entries h a = Some es"
  shows "read_entries h' a = Some es"
proof -
  from assms(2) obtain xs where xs: "get_array h a = Some xs"
    and r: "read_list get_entry h xs = Some es"
    by (auto simp add: read_entries_def split: option.splits)
  from assms(1) r have "read_list get_entry h' xs = Some es"
    by (intro read_list_mono [of get_entry h h']) (auto intro: get_entry_prefix)
  with get_array_prefix [OF assms(1) xs] show ?thesis by (simp add: read_entries_def)
qed

lemma read_enriched_prefix:
  assumes "prefix h h'" and "read_enriched h a = Some es"
  shows "read_enriched h' a = Some es"
proof -
  from assms(2) obtain xs where xs: "get_array h a = Some xs"
    and r: "read_list get_enriched h xs = Some es"
    by (auto simp add: read_enriched_def split: option.splits)
  from assms(1) r have "read_list get_enriched h' xs = Some es"
    by (intro read_list_mono [of get_enriched h h']) (auto intro: get_enriched_prefix)
  with get_array_prefix [OF assms(1) xs] show ?thesis by (simp add: read_enriched_def)
qed

lemma computeScores_st_result:
  assumes "get_entry h e = Some ev" and "get_settings h s = Some sv"
  shows "computeScores_st h e s = Some (h @ [ScoresObj (computeScores ev sv)], length h)"
  using assms by (simp add: computeScores_st_def alloc_def)

lemma enrich_st_result:
  assumes "get_entry h e = Some ev" and "get_settings h s = Some sv"
  shows "enrich_st s h e
     = Some (h @ [ScoresObj (computeScores ev sv),
                  EnrichedObj \<lparr> entry = ev, scores = computeScores ev sv \<rparr>],
             Suc (length h))"
proof -
  have p: "prefix h (h @ [ScoresObj (computeScores ev sv)])" by simp
  have "get_scores (h @ [ScoresObj (computeScores ev sv)]) (length h)
      = Some (computeScores ev sv)"
    by (simp add: get_scores_def lookup_last)
  with get_entry_prefix [OF p assms(1)] show ?thesis
    by (simp add: enrich_st_def computeScores_st_result [OF assms] spread_st_def alloc_def)
qed

lemma each_enrich_st:
  assumes "list_all2 (\<lambda>x v. get_entry h x = Some v) xs es"
    and "get_settings h s = Some sv"
  shows "\<exists>h' rs. each_st (enrich_st s) h xs = Some (h', rs) \<and> prefix h h'
     \<and> (\<forall>r \<in> set rs. length h \<le> r)
     \<and> list_all2 (\<lambda>r v. get_enriched h' r = Some v) rs
          (map (\<lambda>e. \<lparr> entry = e, scores = computeScores e sv \<rparr>) es)"
  using assms
proof (induction xs arbitrary: h es)
  case Nil
  then show ?case by simp
next
  case (Cons x xs)
  from Cons.prems(1) obtain v es' where es: "es = v # es'"
    and xv: "get_entry h x = Some v"
    and rest: "list_all2 (\<lambda>x v. get_entry h x = Some v) xs es'"
    by (auto simp add: list_all2_Cons1)
  let ?h1 = "h @ [ScoresObj (computeScores v sv),
                  EnrichedObj \<lparr> entry = v, scores = computeScores v sv \<rparr>]"
  have p1: "prefix h ?h1" by simp
  have step: "enrich_st s h x = Some (?h1, Suc (length h))"
    by (rule enrich_st_result [OF xv Cons.prems(2)])
  from rest have rest1: "list_all2 (\<lambda>x v. get_entry ?h1 x = Some v) xs es'"
    by (rule list_all2_mono) (rule get_entry_prefix [OF p1])
  from Cons.IH [OF rest1 get_settings_prefix [OF p1 Cons.prems(2)]]
  obtain h' rs where e: "each_st (enrich_st s) ?h1 xs = Some (h', rs)"
    and p: "prefix ?h1 h'" and fr: "\<forall>r \<in> set rs. length ?h1 \<le> r"
    and vs: "list_all2 (\<lambda>r v. get_enriched h' r = Some v) rs
          (map (\<lambda>e. \<lparr> entry = e, scores = computeScores e sv \<rparr>) es')"
    by blast
  have "get_enriched ?h1 (Suc (length h))
      = Some \<lparr> entry = v, scores = computeScores v sv \<rparr>"
    by (simp add: get_enriched_def lookup_def nth_append)
  from get_enriched_prefix [OF p this]
  have first: "get_enriched h' (Suc (length h))
      = Some \<lparr> entry = v, scores = computeScores v sv \<rparr>" .
  from p1 p have "prefix h h'" by (rule prefix_order.trans)
  moreover from fr have "\<forall>r \<in> set (Suc (length h) # rs). length h \<le> r" by auto
  ultimately show ?case using step e first vs by (simp add: es)
qed


lemma map_insertBy:
  "map f (insertBy (\<lambda>p q. cmp (f p) (f q)) x ys) = insertBy cmp (f x) (map f ys)"
  by (induction ys) simp_all

lemma map_foldl_insertBy:
  "map f (foldl (\<lambda>acc x. insertBy (\<lambda>p q. cmp (f p) (f q)) x acc) acc xs)
     = foldl (\<lambda>acc x. insertBy cmp x acc) (map f acc) (map f xs)"
  by (induction xs arbitrary: acc) (simp_all add: map_insertBy)

lemma map_jsSort: "map f (jsSort (\<lambda>p q. cmp (f p) (f q)) xs) = jsSort cmp (map f xs)"
  by (simp add: jsSort_def map_foldl_insertBy)

lemma set_insertBy: "set (insertBy cmp x ys) = insert x (set ys)"
  by (induction ys) auto

lemma set_foldl_insertBy:
  "set (foldl (\<lambda>acc x. insertBy cmp x acc) acc xs) = set acc \<union> set xs"
  by (induction xs arbitrary: acc) (auto simp add: set_insertBy)

lemma set_jsSort: "set (jsSort cmp xs) = set xs"
  by (simp add: jsSort_def set_foldl_insertBy)

lemma sorted_pairs:
  assumes "list_all2 P xs es"
  shows "list_all2 P (map fst (jsSort cmp (zip xs es))) (map snd (jsSort cmp (zip xs es)))"
proof -
  from assms have "\<forall>p \<in> set (zip xs es). P (fst p) (snd p)"
    by (auto simp add: list_all2_iff)
  then have "\<forall>p \<in> set (jsSort cmp (zip xs es)). P (fst p) (snd p)"
    by (simp add: set_jsSort)
  then show ?thesis
    by (simp add: list_all2_map1 list_all2_map2 list_all2_same)
qed

lemma enriched_st_result:
  assumes "read_entries h a = Some es" and "get_settings h s = Some sv"
  shows "\<exists>h' r rs. enriched_st localeCompare h a s = Some (h', r) \<and> prefix h h'
     \<and> length h \<le> r \<and> get_array h' r = Some rs \<and> (\<forall>x \<in> set rs. length h \<le> x)
     \<and> read_enriched h' r = Some (enriched localeCompare es sv)"
proof -
  from assms(1) obtain xs where xs: "get_array h a = Some xs"
    and rd: "read_list get_entry h xs = Some es"
    by (auto simp add: read_entries_def split: option.splits)
  from rd have all2: "list_all2 (\<lambda>x v. get_entry h x = Some v) xs es"
    by (rule read_list_all2)
  then have len: "length xs = length es" by (rule list_all2_lengthD)
  let ?h1 = "h @ [Array xs]"
  have p1: "prefix h ?h1" by simp
  have sl: "slice_st h a = Some (?h1, length h)"
    by (simp add: slice_st_def xs alloc_def)
  let ?cmp2 = "\<lambda>p q. localeCompare (date (snd p)) (date (snd q))"
  let ?ps = "jsSort ?cmp2 (zip xs es)"
  let ?h2 = "h @ [Array (map fst ?ps)]"
  have a1: "get_array ?h1 (length h) = Some xs"
    by (simp add: get_array_def lookup_last)
  have rd1: "read_list get_entry ?h1 xs = Some es"
    using rd by (rule read_list_mono [rotated]) (rule get_entry_prefix [OF p1])
  have so: "sort_st localeCompare ?h1 (length h) = Some (?h2, length h)"
    by (simp add: sort_st_def a1 rd1)
  have p2: "prefix h ?h2" by simp
  have es': "map snd ?ps = jsSort (\<lambda>a b. localeCompare (date a) (date b)) es"
    using map_jsSort [of snd "\<lambda>a b. localeCompare (date a) (date b)" "zip xs es"] len
    by simp
  have "list_all2 (\<lambda>x v. get_entry h x = Some v) (map fst ?ps) (map snd ?ps)"
    using all2 by (rule sorted_pairs)
  then have all2': "list_all2 (\<lambda>x v. get_entry ?h2 x = Some v) (map fst ?ps) (map snd ?ps)"
    by (rule list_all2_mono) (rule get_entry_prefix [OF p2])
  from each_enrich_st [OF all2' get_settings_prefix [OF p2 assms(2)]]
  obtain h3 rs where ea: "each_st (enrich_st s) ?h2 (map fst ?ps) = Some (h3, rs)"
    and p3: "prefix ?h2 h3" and fr: "\<forall>r \<in> set rs. length ?h2 \<le> r"
    and vs: "list_all2 (\<lambda>r v. get_enriched h3 r = Some v) rs
          (map (\<lambda>e. \<lparr> entry = e, scores = computeScores e sv \<rparr>) (map snd ?ps))"
    by blast
  let ?h4 = "h3 @ [Array rs]"
  have a2: "get_array ?h2 (length h) = Some (map fst ?ps)"
    by (simp add: get_array_def lookup_last)
  have ma: "map_st (enrich_st s) ?h2 (length h) = Some (?h4, length h3)"
    by (simp add: map_st_def a2 ea alloc_def)
  have en: "enriched_st localeCompare h a s = Some (?h4, length h3)"
    by (simp add: enriched_st_def sl so ma)
  have p4: "prefix h3 ?h4" by simp
  from p2 p3 have p23: "prefix h h3" by (rule prefix_order.trans)
  from p23 p4 have pre: "prefix h ?h4" by (rule prefix_order.trans)
  from p23 have le: "length h \<le> length h3" by (rule prefix_length_le)
  have arr: "get_array ?h4 (length h3) = Some rs" by (simp add: get_array_def lookup_last)
  from vs have "list_all2 (\<lambda>r v. get_enriched ?h4 r = Some v) rs
          (map (\<lambda>e. \<lparr> entry = e, scores = computeScores e sv \<rparr>) (map snd ?ps))"
    by (rule list_all2_mono) (rule get_enriched_prefix [OF p4])
  then have "read_list get_enriched ?h4 rs
      = Some (map (\<lambda>e. \<lparr> entry = e, scores = computeScores e sv \<rparr>) (map snd ?ps))"
    by (rule all2_read_list)
  then have val: "read_enriched ?h4 (length h3) = Some (enriched localeCompare es sv)"
    by (simp add: read_enriched_def arr enriched_def es')
  from fr have "\<forall>x \<in> set rs. length h \<le> x" by auto
  with en pre le arr val show ?thesis by blast
qed

subsection \<open>The aggregates in the store\<close>

lemma get_totals_last: "get_totals (h @ [TotalsObj t]) (length h) = Some t"
  by (simp add: get_totals_def lookup_last)

lemma get_array_last: "get_array (h @ [Array xs]) (length h) = Some xs"
  by (simp add: get_array_def lookup_last)

lemma totals_acc_step:
  "totals enr
     = (foldl acc_step
          \<lparr> dsa = Num 0, apt = Num 0, web = Num 0, eng = Num 0, rewards = Num 0,
            fines = Num 0, missed = Num 0, totalFineAmount = Num 0, consistency = Num 0 \<rparr>
          enr)
       \<lparr> consistency :=
           (if truthy (js_length enr)
            then Math_round (js_mul
                   (js_div
                      (js_length (filter (\<lambda>e. js_eq (completion (scores e)) (Num 100)) enr))
                      (js_length enr))
                   (Num 100))
            else Num 0) \<rparr>"
proof -
  have "acc_step = (\<lambda>acc e. acc\<lparr>
              dsa := js_add (dsa acc) (dsaQs (entry e)),
              apt := js_add (apt acc) (aptQs (entry e)),
              web := js_add (web acc) (webMin (entry e)),
              eng := js_add (eng acc) (engMin (entry e)),
              rewards := js_add (rewards acc)
                 (if outcome (scores e) = ''Reward'' then Num 1 else Num 0),
              fines := js_add (fines acc)
                 (if outcome (scores e) = ''Fine'' then Num 1 else Num 0),
              missed := js_add (missed acc)
                 (if outcome (scores e) = ''Missed'' then Num 1 else Num 0),
              totalFineAmount := js_add (totalFineAmount acc) (fine (scores e)) \<rparr>)"
    by (intro ext) (simp add: acc_step_def)
  then show ?thesis by (simp add: totals_def Let_def)
qed

lemma reduce_st_result:
  assumes "list_all2 (\<lambda>x v. get_enriched h x = Some v) xs enr"
  shows "reduce_st (length h) (h @ [TotalsObj t]) xs
     = Some (h @ [TotalsObj (foldl acc_step t enr)])"
  using assms
proof (induction xs arbitrary: t enr)
  case Nil
  then show ?case by simp
next
  case (Cons x xs)
  from Cons.prems obtain e enr' where enr: "enr = e # enr'"
    and xe: "get_enriched h x = Some e"
    and rest: "list_all2 (\<lambda>x v. get_enriched h x = Some v) xs enr'"
    by (auto simp add: list_all2_Cons1)
  have p: "prefix h (h @ [TotalsObj t])" by simp
  have "accumulate_st (length h) (h @ [TotalsObj t]) x
      = Some (h @ [TotalsObj (acc_step t e)])"
    by (simp add: accumulate_st_def get_totals_def lookup_last
          get_enriched_prefix [OF p xe])
  with Cons.IH [OF rest, of "acc_step t e"] show ?case by (simp add: enr)
qed

lemma filter_st_result:
  assumes "get_array h a = Some xs"
    and "list_all2 (\<lambda>x v. get_enriched h x = Some v) xs enr"
  shows "\<exists>fs. filter_st h a = Some (h @ [Array fs], length h)
     \<and> length fs = length (filter (\<lambda>e. js_eq (completion (scores e)) (Num 100)) enr)"
proof -
  from assms(2) have len: "length xs = length enr" by (rule list_all2_lengthD)
  let ?ps = "filter (\<lambda>p. js_eq (completion (scores (snd p))) (Num 100)) (zip xs enr)"
  have "map snd ?ps
      = filter (\<lambda>e. js_eq (completion (scores e)) (Num 100)) (map snd (zip xs enr))"
    by (simp add: filter_map o_def)
  then have "length ?ps = length (filter (\<lambda>e. js_eq (completion (scores e)) (Num 100)) enr)"
    using len by (metis length_map map_snd_zip)
  moreover have "filter_st h a = Some (h @ [Array (map fst ?ps)], length h)"
    using all2_read_list [of get_enriched h xs enr, OF assms(2)]
    by (simp add: filter_st_def assms(1) alloc_def)
  ultimately show ?thesis by simp
qed

lemma totals_st_result:
  assumes "read_enriched h a = Some enr"
  shows "\<exists>h' t. totals_st h a = Some (h', t) \<and> prefix h h' \<and> length h \<le> t
     \<and> get_totals h' t = Some (totals enr)"
proof -
  from assms obtain xs where xs: "get_array h a = Some xs"
    and rd: "read_list get_enriched h xs = Some enr"
    by (auto simp add: read_enriched_def split: option.splits)
  from rd have all2: "list_all2 (\<lambda>x v. get_enriched h x = Some v) xs enr"
    by (rule read_list_all2)
  then have len: "length xs = length enr" by (rule list_all2_lengthD)
  let ?init = "\<lparr> dsa = Num 0, apt = Num 0, web = Num 0, eng = Num 0, rewards = Num 0,
      fines = Num 0, missed = Num 0, totalFineAmount = Num 0, consistency = Num 0 \<rparr>"
  let ?T = "foldl acc_step ?init enr"
  let ?h2 = "h @ [TotalsObj ?T]"
  have red: "reduce_st (length h) (h @ [TotalsObj ?init]) xs = Some ?h2"
    by (rule reduce_st_result [OF all2])
  have gt: "get_totals ?h2 (length h) = Some ?T" by (simp add: get_totals_def lookup_last)
  have p2: "prefix h ?h2" by simp
  have jl: "js_length xs = js_length enr" by (simp add: js_length_def len)
  show ?thesis
  proof (cases "truthy (js_length xs)")
    case False
    let ?h3 = "?h2 @ [TotalsObj (?T\<lparr> consistency := Num 0 \<rparr>)]"
    from False have ts: "totals_st h a = Some (?h3, length ?h2)"
      by (simp add: totals_st_def xs alloc_def red gt)
    from False jl have v: "totals enr = ?T\<lparr> consistency := Num 0 \<rparr>"
      by (simp add: totals_acc_step)
    have "get_totals ?h3 (length ?h2) = Some (?T\<lparr> consistency := Num 0 \<rparr>)"
      by (rule get_totals_last)
    then have g: "get_totals ?h3 (length ?h2) = Some (totals enr)" by (simp only: v)
    have p: "prefix h ?h3" by simp
    have l: "length h \<le> length ?h2" by simp
    from ts p l g show ?thesis by blast
  next
    case True
    from all2 have all2': "list_all2 (\<lambda>x v. get_enriched ?h2 x = Some v) xs enr"
      by (rule list_all2_mono) (rule get_enriched_prefix [OF p2])
    from filter_st_result [OF get_array_prefix [OF p2 xs] all2']
    obtain fs where fi: "filter_st ?h2 a = Some (?h2 @ [Array fs], length ?h2)"
      and fl: "length fs = length (filter (\<lambda>e. js_eq (completion (scores e)) (Num 100)) enr)"
      by blast
    let ?c = "Math_round (js_mul (js_div (js_length fs) (js_length xs)) (Num 100))"
    let ?h3 = "?h2 @ [Array fs]"
    let ?h4 = "?h3 @ [TotalsObj (?T\<lparr> consistency := ?c \<rparr>)]"
    have "get_array ?h3 (length ?h2) = Some fs"
      by (rule get_array_last)
    then have ga: "get_array (h @ [TotalsObj ?T, Array fs]) (Suc (length h)) = Some fs"
      by simp
    from True have ts: "totals_st h a = Some (?h4, length ?h3)"
      by (simp add: totals_st_def xs alloc_def red gt fi ga)
    have "js_length fs
        = js_length (filter (\<lambda>e. js_eq (completion (scores e)) (Num 100)) enr)"
      by (simp add: js_length_def fl)
    with True jl have v: "totals enr = ?T\<lparr> consistency := ?c \<rparr>"
      by (simp add: totals_acc_step)
    have "get_totals ?h4 (length ?h3) = Some (?T\<lparr> consistency := ?c \<rparr>)"
      by (rule get_totals_last)
    then have g: "get_totals ?h4 (length ?h3) = Some (totals enr)" by (simp only: v)
    have p: "prefix h ?h4" by simp
    have l: "length h \<le> length ?h3" by simp
    from ts p l g show ?thesis by blast
  qed
qed

lemma streaks_st_result:
  assumes "read_enriched h a = Some enr"
  shows "streaks_st h a = Some (h @ [StreaksObj (streaks enr)], length h)"
  using assms by (simp add: streaks_st_def alloc_def)

subsection \<open>What the store tells apart\<close>

text \<open>Sorting the caller's array in place, without the
  copy, changes it; and the copy made by \<open>slice\<close> shares the entry objects, so that a
  write to an element reached through the copy changes the caller's object.\<close>

lemma sort_in_place_writes:
  "sort_st isoCompare sampleStore 4 = Some (sampleStore[4 := Array [1, 3, 0, 2]], 4)"
  by (simp add: sort_st_def sampleStore_def get_array_def get_entry_def lookup_def jsSort_def
        sampleEntry_def)

lemma slice_shares_elements:
  "\<exists>h1 c. slice_st sampleStore 4 = Some (h1, c) \<and> c \<noteq> 4
     \<and> get_array h1 c = Some [0, 1, 2, 3] \<and> get_array h1 4 = Some [0, 1, 2, 3]
     \<and> take (length sampleStore) (h1[0 := EntryObj dayNegative]) \<noteq> sampleStore"
  by (simp add: slice_st_def sampleStore_def get_array_def lookup_def alloc_def
        dayNegative_def sampleEntry_def)

lemma sample_store_reads:
  shows "get_entry sampleStore 1 = Some dayAllMet"
    and "get_settings sampleStore 5 = Some defaultSettings"
    and "read_entries sampleStore 4 = Some sampleEntries"
  by (simp_all add: sampleStore_def get_entry_def get_settings_def read_entries_def
        get_array_def lookup_def dayAllMet_def sampleEntries_def)

subsection \<open>Grading leaves its inputs as they were\<close>

text \<open>
  C9. With objects and arrays held by reference in a store, \<open>computeScores\<close> on an entry
  and settings succeeds, leaves every cell that existed before the call as it was, and
  returns a new object whose value is determined by the field values of the entry and of
  the settings; a second call returns another new object of equal value. Computing
  \<open>enriched\<close>, then \<open>totals\<close> and \<open>streaks\<close>, for an array of entries likewise changes
  no cell that existed before (not the array, which is sorted in a copy, nor the entry
  objects the copy shares, nor the settings); the resulting array and its elements are
  new, and the values of the results are determined by the values of the entries and of
  the settings. Computing \<open>enriched\<close> again returns a new array of equal value.
\<close>

theorem grading_is_pure:
  assumes "get_entry h e = Some ev" and "get_settings h s = Some sv"
    and "read_entries h a = Some es"
  shows "(\<exists>h1 r1. computeScores_st h e s = Some (h1, r1)
        \<and> take (length h) h1 = h \<and> length h \<le> r1
        \<and> get_scores h1 r1 = Some (computeScores ev sv)
        \<and> (\<exists>h2 r2. computeScores_st h1 e s = Some (h2, r2)
              \<and> take (length h1) h2 = h1 \<and> length h1 \<le> r2
              \<and> get_scores h2 r2 = Some (computeScores ev sv)
              \<and> get_scores h2 r1 = Some (computeScores ev sv)))
   \<and> (\<exists>h1 r rs h2 t h3 k.
          enriched_st localeCompare h a s = Some (h1, r)
        \<and> totals_st h1 r = Some (h2, t)
        \<and> streaks_st h2 r = Some (h3, k)
        \<and> take (length h) h3 = h
        \<and> length h \<le> r \<and> length h \<le> t \<and> length h \<le> k
        \<and> get_array h3 r = Some rs \<and> (\<forall>x \<in> set rs. length h \<le> x)
        \<and> read_enriched h3 r = Some (enriched localeCompare es sv)
        \<and> get_totals h3 t = Some (totals (enriched localeCompare es sv))
        \<and> get_streaks h3 k = Some (streaks (enriched localeCompare es sv))
        \<and> (\<exists>h4 r'. enriched_st localeCompare h3 a s = Some (h4, r')
              \<and> take (length h3) h4 = h3 \<and> length h3 \<le> r'
              \<and> read_enriched h4 r' = Some (enriched localeCompare es sv)
              \<and> read_enriched h4 r = Some (enriched localeCompare es sv)))"
proof (intro conjI)
  let ?v = "computeScores ev sv"
  let ?h1 = "h @ [ScoresObj ?v]"
  let ?h2 = "?h1 @ [ScoresObj ?v]"
  have p1: "prefix h ?h1" and p2: "prefix ?h1 ?h2" by simp_all
  have c1: "computeScores_st h e s = Some (?h1, length h)"
    by (rule computeScores_st_result [OF assms(1,2)])
  have c2: "computeScores_st ?h1 e s = Some (?h2, length ?h1)"
    by (rule computeScores_st_result
          [OF get_entry_prefix [OF p1 assms(1)] get_settings_prefix [OF p1 assms(2)]])
  have g1: "get_scores ?h1 (length h) = Some ?v" by (simp add: get_scores_def lookup_last)
  have g2: "get_scores ?h2 (length ?h1) = Some ?v"
    by (simp only: get_scores_def lookup_last) simp
  have g3: "get_scores ?h2 (length h) = Some ?v" by (rule get_scores_prefix [OF p2 g1])
  have "\<exists>h2 r2. computeScores_st ?h1 e s = Some (h2, r2)
        \<and> take (length ?h1) h2 = ?h1 \<and> length ?h1 \<le> r2
        \<and> get_scores h2 r2 = Some ?v \<and> get_scores h2 (length h) = Some ?v"
    using c2 prefix_take [OF p2] g2 g3 by blast
  with c1 prefix_take [OF p1] g1
  show "\<exists>h1 r1. computeScores_st h e s = Some (h1, r1)
        \<and> take (length h) h1 = h \<and> length h \<le> r1
        \<and> get_scores h1 r1 = Some ?v
        \<and> (\<exists>h2 r2. computeScores_st h1 e s = Some (h2, r2)
              \<and> take (length h1) h2 = h1 \<and> length h1 \<le> r2
              \<and> get_scores h2 r2 = Some ?v \<and> get_scores h2 r1 = Some ?v)"
    by blast
next
  let ?enr = "enriched localeCompare es sv"
  from enriched_st_result [OF assms(3,2)]
  obtain h1 r rs where en: "enriched_st localeCompare h a s = Some (h1, r)"
    and p1: "prefix h h1" and lr: "length h \<le> r" and ar: "get_array h1 r = Some rs"
    and fr: "\<forall>x \<in> set rs. length h \<le> x" and v1: "read_enriched h1 r = Some ?enr"
    by blast
  from totals_st_result [OF v1]
  obtain h2 t where to: "totals_st h1 r = Some (h2, t)" and p2: "prefix h1 h2"
    and lt: "length h1 \<le> t" and v2: "get_totals h2 t = Some (totals ?enr)"
    by blast
  let ?h3 = "h2 @ [StreaksObj (streaks ?enr)]"
  have st: "streaks_st h2 r = Some (?h3, length h2)"
    by (rule streaks_st_result [OF read_enriched_prefix [OF p2 v1]])
  have p3: "prefix h2 ?h3" by simp
  from p1 p2 have p12: "prefix h h2" by (rule prefix_order.trans)
  from p12 p3 have p13: "prefix h ?h3" by (rule prefix_order.trans)
  from p2 p3 have p23: "prefix h1 ?h3" by (rule prefix_order.trans)
  from enriched_st_result [OF read_entries_prefix [OF p13 assms(3)]
      get_settings_prefix [OF p13 assms(2)]]
  obtain h4 r' where en2: "enriched_st localeCompare ?h3 a s = Some (h4, r')"
    and p4: "prefix ?h3 h4" and lr': "length ?h3 \<le> r'"
    and v4: "read_enriched h4 r' = Some ?enr"
    by blast
  from p23 p4 have p14: "prefix h1 h4" by (rule prefix_order.trans)
  have second: "\<exists>h4 r'. enriched_st localeCompare ?h3 a s = Some (h4, r')
        \<and> take (length ?h3) h4 = ?h3 \<and> length ?h3 \<le> r'
        \<and> read_enriched h4 r' = Some ?enr \<and> read_enriched h4 r = Some ?enr"
    using en2 prefix_take [OF p4] lr' v4 read_enriched_prefix [OF p14 v1] by blast
  have lt': "length h \<le> t" using lt prefix_length_le [OF p1] by simp
  have lk: "length h \<le> length h2" using prefix_length_le [OF p12] .
  have g: "get_streaks ?h3 (length h2) = Some (streaks ?enr)"
    by (simp add: get_streaks_def lookup_last)
  from en to st prefix_take [OF p13] lr lt' lk get_array_prefix [OF p23 ar] fr
    read_enriched_prefix [OF p23 v1] get_totals_prefix [OF p3 v2] g second
  show "\<exists>h1 r rs h2 t h3 k.
          enriched_st localeCompare h a s = Some (h1, r)
        \<and> totals_st h1 r = Some (h2, t)
        \<and> streaks_st h2 r = Some (h3, k)
        \<and> take (length h) h3 = h
        \<and> length h \<le> r \<and> length h \<le> t \<and> length h \<le> k
        \<and> get_array h3 r = Some rs \<and> (\<forall>x \<in> set rs. length h \<le> x)
        \<and> read_enriched h3 r = Some ?enr
        \<and> get_totals h3 t = Some (totals ?enr)
        \<and> get_streaks h3 k = Some (streaks ?enr)
        \<and> (\<exists>h4 r'. enriched_st localeCompare h3 a s = Some (h4, r')
              \<and> take (length h3) h4 = h3 \<and> length h3 \<le> r'
              \<and> read_enriched h4 r' = Some ?enr \<and> read_enriched h4 r = Some ?enr)"
    by blast
qed

theorem grading_is_pure_witness:
  "get_entry sampleStore 1 = Some dayAllMet
   \<and> get_settings sampleStore 5 = Some defaultSettings
   \<and> read_entries sampleStore 4 = Some sampleEntries
   \<and> (\<exists>h1 r1. computeScores_st sampleStore 1 5 = Some (h1, r1)
        \<and> take (length sampleStore) h1 = sampleStore
        \<and> get_scores h1 r1 = Some (computeScores dayAllMet defaultSettings))
   \<and> (\<exists>h1 r h2 t h3 k.
          enriched_st isoCompare sampleStore 4 5 = Some (h1, r)
        \<and> totals_st h1 r = Some (h2, t)
        \<and> streaks_st h2 r = Some (h3, k)
        \<and> take (length sampleStore) h3 = sampleStore
        \<and> read_enriched h3 r = Some (enriched isoCompare sampleEntries defaultSettings)
        \<and> get_totals h3 t = Some (totals (enriched isoCompare sampleEntries defaultSettings))
        \<and> get_streaks h3 k = Some \<lparr> current = 1, best = 2 \<rparr>)"
proof -
  note r = sample_store_reads
  from grading_is_pure [OF r, of isoCompare]
  have "(\<exists>h1 r1. computeScores_st sampleStore 1 5 = Some (h1, r1)
        \<and> take (length sampleStore) h1 = sampleStore
        \<and> get_scores h1 r1 = Some (computeScores dayAllMet defaultSettings))"
    and "(\<exists>h1 r h2 t h3 k.
          enriched_st isoCompare sampleStore 4 5 = Some (h1, r)
        \<and> totals_st h1 r = Some (h2, t)
        \<and> streaks_st h2 r = Some (h3, k)
        \<and> take (length sampleStore) h3 = sampleStore
        \<and> read_enriched h3 r = Some (enriched isoCompare sampleEntries defaultSettings)
        \<and> get_totals h3 t = Some (totals (enriched isoCompare sampleEntries defaultSettings))
        \<and> get_streaks h3 k
            = Some (streaks (enriched isoCompare sampleEntries defaultSettings)))"
    by blast+
  with r show ?thesis by (simp add: sample_streaks)
qed

end
